theory Spec2Isabelle
  imports Main "HOL-Library.AList" "HOL-Library.Sublist"
begin

section \<open>Data model of build.py\<close>

text \<open>
  A country record is a Python dict from field names to strings: a partial map. The
  records are mutable objects that the dataset dicts, the reindexed dicts and the
  \<open>patched\<close> list all share by reference, so they live in an explicit store: an
  address names a record object, the heap gives the current contents of each object,
  and a dataset dict holds addresses. No function of the core creates a record object
  (\<open>wad.copy()\<close> is a shallow copy), so the heap is total and nothing is allocated.

  A dict is the list of its items in iteration order. Python 2 iterates a dict in an
  arbitrary order; every order of an input dict is some list, and the theorems hold for
  all of them. Assignment \<open>d[k] = v\<close> is \<open>AList.update\<close>, \<open>del d[k]\<close> is
  \<open>AList.delete\<close>. Strings are lists of \<open>char\<close>, a \<open>char\<close> standing for a code point
  below 256.
\<close>

datatype error = KeyError | IndexError

type_synonym addr = nat
type_synonym country = "string \<rightharpoonup> string"
type_synonym heap = "addr \<Rightarrow> country"
type_synonym dict = "(string \<times> addr) list"

subsection \<open>String methods\<close>

text \<open>
  \<open>s.upper()\<close> on a unicode string maps every character to its capital. Among the
  code points below 256 the characters with a capital of their own are the letters a
  to z (97 to 122) and the Latin-1 letters 224 to 254 except the division sign 247;
  their capital is 32 lower, which is bit 5 cleared. The sharp s (223) and all other
  characters stay as they are.
\<close>

definition upper_char :: "char \<Rightarrow> char" where
  "upper_char c =
     (let n = (of_char c :: nat) in
      if (97 \<le> n \<and> n \<le> 122) \<or> (224 \<le> n \<and> n \<le> 254 \<and> n \<noteq> 247)
      then (case c of Char b0 b1 b2 b3 b4 b5 b6 b7 \<Rightarrow> Char b0 b1 b2 b3 b4 False b6 b7)
      else c)"

definition upper :: "string \<Rightarrow> string" where
  "upper s = map upper_char s"

text \<open>
  Two characters below 256 have a capital that is not below 256: the micro sign 181
  (capital U+039C) and the y with diaeresis 255 (capital U+0178). No \<open>char\<close> stands
  for these capitals, and \<open>upper\<close> leaves the two characters as they are, which is
  not what Python does. \<open>upper_in_range s\<close> says that \<open>s\<close> contains neither of them:
  then \<open>upper s\<close> is \<open>s.upper()\<close>. The theorems that state the upper-cased name of
  a record assume it of the names concerned.
\<close>

definition upper_in_range :: "string \<Rightarrow> bool" where
  "upper_in_range s =
     list_all (\<lambda>c. (of_char c :: nat) \<noteq> 181 \<and> (of_char c :: nat) \<noteq> 255) s"

text \<open>
  \<open>s.strip()\<close> removes leading and trailing whitespace; for a unicode string of code
  points below 256 that is 9 to 13, 28 to 32, 133 and 160.
\<close>

definition is_space :: "char \<Rightarrow> bool" where
  "is_space c = ((of_char c :: nat) \<in> {9, 10, 11, 12, 13, 28, 29, 30, 31, 32, 133, 160})"

definition strip :: "string \<Rightarrow> string" where
  "strip s = rev (dropWhile is_space (rev (dropWhile is_space s)))"

text \<open>\<open>s.split(' ')\<close> cuts at every single space and keeps empty pieces.\<close>

fun split_sp :: "string \<Rightarrow> string list" where
  "split_sp [] = [[]]"
| "split_sp (c # cs) =
     (if c = CHR '' '' then [] # split_sp cs
      else (case split_sp cs of [] \<Rightarrow> [[c]] | t # ts \<Rightarrow> (c # t) # ts))"

text \<open>\<open>s.find(sub)\<close>: the lowest index at which \<open>sub\<close> starts in \<open>s\<close>, or -1.\<close>

fun str_find :: "string \<Rightarrow> string \<Rightarrow> int" where
  "str_find [] sub = (if sub = [] then 0 else - 1)"
| "str_find (c # cs) sub =
     (if prefix sub (c # cs) then 0
      else (let r = str_find cs sub in if r < 0 then - 1 else r + 1))"

subsection \<open>Static tables\<close>

definition COUNTRY_MAPPINGS :: "(string \<times> string) list" where
  "COUNTRY_MAPPINGS =
    [(''UNITED STATES'', ''UNITED STATES OF AMERICA''),
     (''SAINT MARTIN (FRANCE)'', ''SAINT-MARTIN (FRENCH PART)''),
     (''SOUTH GEORGIA AND THE SOUTH SANDWICH ISLANDS'', ''SOUTH GEORGIA AND SOUTH S.S.''),
     (''CARIBBEAN NETHERLANDS'', ''NETHERLANDS ANTILLES''),
     (''LAOS'', ''LAO PEOPLE'' @ [CHR 0x27] @ ''S DEMOCRATIC REPUBLIC''),
     (''BURMA'', ''MYANMAR''),
     (''MICRONESIA, FEDERATED STATES OF'', ''MICRONESIA (FEDERATED STATES OF)''),
     (''KOREA, NORTH'', ''DEMOCRATIC PEOPLE'' @ [CHR 0x27] @ ''S REPUBLIC OF KOREA''),
     (''KOREA, SOUTH'', ''REPUBLIC OF KOREA''),
     (''CONGO, DEMOCRATIC REPUBLIC OF THE (ZAIRE)'', ''DEMOCRATIC REPUBLIC OF THE CONGO''),
     (''US VIRGIN ISLANDS'', ''UNITED STATES VIRGIN ISLANDS''),
     (''MACAU'', ''CHINA, MACAO SPECIAL ADMINISTRATIVE REGION''),
     (''FAROE ISLANDS'', ''FAEROE ISLANDS''),
     (''EAST TIMOR'', ''TIMOR-LESTE''),
     (''PALESTINIAN TERRITORIES'', ''STATE OF PALESTINE''),
     (''VATICAN CITY STATE (HOLY SEE)'', ''HOLY SEE (VATICAN CITY STATE)''),
     (''SAINT BARTH'' @ [CHR 0xC9] @ ''LEMY'', ''SAINT-BARTH'' @ [CHR 0xC9] @ ''LEMY''),
     (''SINT MAARTEN (NETHERLANDS)'', ''SINT MAARTEN (DUTCH PART)''),
     (''S'' @ [CHR 0xC3] @ ''O TOM'' @ [CHR 0xC9] @ '' AND PR'' @ [CHR 0xCD] @ ''NCIPE'',
      ''SAO TOME AND PRINCIPE''),
     (''SINT EUSTATIUS'', ''BONAIRE, SAINT EUSTATIUS AND SABA'')]"

section \<open>Reindexer\<close>

text \<open>
  \<open>reindex(dataset, key)\<close>: the loop over \<open>dataset.values()\<close> stores each record
  under its value of the field; \<open>data[key]\<close> raises KeyError when the record has no
  such field, and a later record replaces an earlier one with the same value.
\<close>

fun reindex_loop :: "heap \<Rightarrow> string \<Rightarrow> addr list \<Rightarrow> dict \<Rightarrow> error + dict" where
  "reindex_loop h key [] newdict = Inr newdict"
| "reindex_loop h key (data # ds) newdict =
     (case h data key of
        None \<Rightarrow> Inl KeyError
      | Some v \<Rightarrow> reindex_loop h key ds (AList.update v data newdict))"

definition reindex :: "heap \<Rightarrow> dict \<Rightarrow> string \<Rightarrow> error + dict" where
  "reindex h dataset key = reindex_loop h key (map snd dataset) []"

section \<open>Blender\<close>

text \<open>
  The \<open>try\<close> block of the loop body (lines 235 to 243). It returns the value of the
  flag \<open>PATCHED\<close> when the block ends, and the heap after the two assignments, or
  \<open>None\<close> when a KeyError left the block: a missing ISO3 in \<open>und\<close> or a missing
  field. The flag can already be set when \<open>data['name']\<close> raises.
\<close>

definition blend_try :: "dict \<Rightarrow> heap \<Rightarrow> string \<Rightarrow> addr \<Rightarrow> bool \<times> heap option" where
  "blend_try und h iso3 data =
     (case map_of und iso3 of
        None \<Rightarrow> (False, None)
      | Some undata \<Rightarrow>
         (case h undata ''name'' of
            None \<Rightarrow> (False, None)
          | Some nm \<Rightarrow>
             (let unname = upper nm in
              case h data ''number'' of
                None \<Rightarrow> (False, None)
              | Some dn \<Rightarrow>
                 (case h undata ''number'' of
                    None \<Rightarrow> (False, None)
                  | Some un \<Rightarrow>
                     (let p1 = (dn \<noteq> un) in
                      case h data ''name'' of
                        None \<Rightarrow> (p1, None)
                      | Some dname \<Rightarrow>
                         (let p2 = (p1 \<or> dname \<noteq> unname);
                              h1 = h(data := (h data)(''number'' \<mapsto> un));
                              h2 = h1(data := (h1 data)(''name'' \<mapsto> unname))
                          in (p2, Some h2)))))))"

text \<open>
  The handler of that KeyError (lines 246 to 258), itself a \<open>try\<close> block. It returns
  whether it reached \<open>PATCHED = True\<close>, the value of the variable \<open>iso3\<close>
  afterwards, the heap and \<open>newdata\<close>. A KeyError in the middle keeps the
  assignments made before it.
\<close>

definition blend_fallback ::
  "dict \<Rightarrow> heap \<Rightarrow> dict \<Rightarrow> string \<Rightarrow> addr \<Rightarrow> bool \<times> string \<times> heap \<times> dict" where
  "blend_fallback isonum h newdata iso3 data =
     (case h data ''number'' of
        None \<Rightarrow> (False, iso3, h, newdata)
      | Some dn \<Rightarrow>
         (case map_of isonum dn of
            None \<Rightarrow> (False, iso3, h, newdata)
          | Some undata \<Rightarrow>
             (case h undata ''iso3'' of
                None \<Rightarrow> (False, iso3, h, newdata)
              | Some iso3' \<Rightarrow>
                 (let h1 = h(data := (h data)(''iso3'' \<mapsto> iso3')) in
                  case h1 undata ''name'' of
                    None \<Rightarrow> (False, iso3', h1, newdata)
                  | Some nm \<Rightarrow>
                     (let h2 = h1(data := (h1 data)(''name'' \<mapsto> upper nm));
                          newdata1 = AList.update iso3' data newdata
                      in if iso3 \<in> fst ` set newdata1
                         then (True, iso3', h2, AList.delete iso3 newdata1)
                         else (False, iso3', h2, newdata1))))))"

text \<open>One pass of the loop over \<open>newdata.items()\<close> (lines 233 to 261).\<close>

fun blend_step ::
  "dict \<Rightarrow> dict \<Rightarrow> heap \<times> dict \<times> addr list \<Rightarrow> string \<times> addr \<Rightarrow> heap \<times> dict \<times> addr list" where
  "blend_step und isonum (h, newdata, patched) (iso3, data) =
     (case blend_try und h iso3 data of
        (p, Some h') \<Rightarrow>
          (h', AList.update iso3 data newdata, if p then patched @ [data] else patched)
      | (p, None) \<Rightarrow>
          (case blend_fallback isonum h newdata iso3 data of
             (ok, iso3', h', newdata') \<Rightarrow>
               (h', AList.update iso3' data newdata',
                if p \<or> ok then patched @ [data] else patched)))"

text \<open>The loop over \<open>missing_iso3\<close> (lines 267 to 272).\<close>

fun blend_missing ::
  "dict \<Rightarrow> string list \<Rightarrow> heap \<times> dict \<times> addr list \<Rightarrow> error + heap \<times> dict \<times> addr list" where
  "blend_missing und [] s = Inr s"
| "blend_missing und (iso3 # ks) (h, newdata, patched) =
     (case map_of und iso3 of
        None \<Rightarrow> Inl KeyError
      | Some data \<Rightarrow>
         (let h1 = h(data := (h data)(''iso2'' \<mapsto> '''')) in
          case h1 data ''name'' of
            None \<Rightarrow> Inl KeyError
          | Some nm \<Rightarrow>
              blend_missing und ks
                (h1(data := (h1 data)(''name'' \<mapsto> upper nm)),
                 AList.update iso3 data newdata, patched @ [data])))"

text \<open>
  \<open>blend_un_wad(und, wad)\<close>. The items of \<open>newdata\<close> are a snapshot taken before the
  loop (Python 2), in the order of \<open>wad\<close>. \<open>list(uniso3 - blendiso3)\<close> enumerates a
  set in an order Python does not promise: \<open>order\<close> stands for it, applied to the
  missing keys listed in the order of \<open>und\<close>. The result is the heap after all
  assignments, \<open>newdata\<close> and \<open>patched\<close>, a list of references.
\<close>

definition blend_un_wad ::
  "(string list \<Rightarrow> string list) \<Rightarrow> heap \<Rightarrow> dict \<Rightarrow> dict \<Rightarrow> error + heap \<times> dict \<times> addr list" where
  "blend_un_wad order h und wad =
     (case reindex h und ''number'' of
        Inl e \<Rightarrow> Inl e
      | Inr isonum \<Rightarrow>
         (case foldl (blend_step und isonum) (h, wad, []) wad of
            (h1, newdata, patched) \<Rightarrow>
              (let missing_iso3 =
                     order (filter (\<lambda>k. k \<notin> fst ` set newdata) (map fst und))
               in blend_missing und missing_iso3 (h1, newdata, patched))))"

section \<open>Code Augmenter\<close>

text \<open>\<open>[x.pop(1) for x in numbers]\<close>: IndexError on an entry with one token only.\<close>

fun pop1_all :: "string list list \<Rightarrow> error + string list" where
  "pop1_all [] = Inr []"
| "pop1_all (x # xs) =
     (case x of
        t0 # t1 # ts \<Rightarrow> (case pop1_all xs of Inl e \<Rightarrow> Inl e | Inr rs \<Rightarrow> Inr (t1 # rs))
      | _ \<Rightarrow> Inl IndexError)"

text \<open>The loop \<open>result[regions.pop(0)] = rc\<close>: IndexError once \<open>regions\<close> is empty.\<close>

fun assign_regions :: "string list \<Rightarrow> string list \<Rightarrow> country \<Rightarrow> error + country" where
  "assign_regions regions [] result = Inr result"
| "assign_regions [] (rc # rcs) result = Inl IndexError"
| "assign_regions (r # regions) (rc # rcs) result =
     assign_regions regions rcs (result(r \<mapsto> rc))"

text \<open>\<open>x.replace('+', '').strip().split(' ')\<close>, the tokens of one raw string.\<close>

definition tokens :: "string \<Rightarrow> string list" where
  "tokens x = split_sp (strip (filter (\<lambda>c. c \<noteq> CHR ''+'') x))"

text \<open>
  \<open>_split_numbers(numbers)\<close>. \<open>numbers[0][0]\<close> raises IndexError on an empty list;
  the test for region codes looks at the first entry only.
\<close>

definition split_numbers :: "string list \<Rightarrow> error + country" where
  "split_numbers numbers0 =
     (let numbers = map tokens numbers0 in
      case numbers of
        [] \<Rightarrow> Inl IndexError
      | n0 # ns \<Rightarrow>
         (case n0 of
            [] \<Rightarrow> Inl IndexError
          | idc # ts \<Rightarrow>
             (let result = [''idc'' \<mapsto> idc] in
              if length n0 > 1 then
                (case pop1_all numbers of
                   Inl e \<Rightarrow> Inl e
                 | Inr region_codes \<Rightarrow>
                     assign_regions [''region_a'', ''region_b'', ''region_c'', ''region_d'']
                       region_codes result)
              else Inr result)))"

text \<open>
  The body of the loop of \<open>map_numbers\<close> for one pair of \<open>country_codes\<close>.
  \<open>data.update(d)\<close> overwrites the fields of \<open>d\<close> in the record and keeps the
  others. IndexError from \<open>_split_numbers\<close> is not caught by \<open>except KeyError\<close>.
  The messages written to stderr under \<open>verbose\<close> are left out.
\<close>

definition map_numbers_step :: "dict \<Rightarrow> heap \<Rightarrow> string \<times> string list \<Rightarrow> error + heap" where
  "map_numbers_step byname h p =
     (let country = (case map_of COUNTRY_MAPPINGS (fst p) of Some c \<Rightarrow> c | None \<Rightarrow> fst p) in
      case map_of byname country of
        Some data \<Rightarrow>
          (let numbers = (if country = ''HOLY SEE (VATICAN CITY STATE)''
                          then [''+39 066''] else snd p) in
           case split_numbers numbers of
             Inl e \<Rightarrow> Inl e
           | Inr r \<Rightarrow> Inr (h(data := h data ++ r)))
      | None \<Rightarrow>
          (let possible_countries =
                 filter (\<lambda>c. str_find c country \<ge> 0) (map fst byname) in
           case possible_countries of
             [c] \<Rightarrow>
               (case map_of byname c of
                  None \<Rightarrow> Inl KeyError
                | Some data \<Rightarrow>
                   (case split_numbers (snd p) of
                      Inl e \<Rightarrow> Inl e
                    | Inr r \<Rightarrow> Inr (h(data := h data ++ r))))
           | _ \<Rightarrow> Inr h))"

text \<open>
  The loop over \<open>country_codes.items()\<close>. The function changes records in place and
  returns nothing, so the model returns the heap, with the exception that ended the
  call if there was one: the assignments made before it stay.
\<close>

fun map_numbers_loop ::
  "dict \<Rightarrow> heap \<Rightarrow> (string \<times> string list) list \<Rightarrow> heap \<times> error option" where
  "map_numbers_loop byname h [] = (h, None)"
| "map_numbers_loop byname h (p # ps) =
     (case map_numbers_step byname h p of
        Inl e \<Rightarrow> (h, Some e)
      | Inr h' \<Rightarrow> map_numbers_loop byname h' ps)"

definition map_numbers ::
  "heap \<Rightarrow> dict \<Rightarrow> (string \<times> string list) list \<Rightarrow> heap \<times> error option" where
  "map_numbers h data country_codes =
     (case reindex h data ''name'' of
        Inl e \<Rightarrow> (h, Some e)
      | Inr byname \<Rightarrow> map_numbers_loop byname h country_codes)"

section \<open>Filter\<close>

text \<open>
  Lines 361 to 364 of \<open>make_dataset\<close>: the loop over the snapshot \<open>blend.keys()\<close>
  deletes each entry whose record has no \<open>idc\<close> or an empty one.
\<close>

fun strip_no_idc :: "heap \<Rightarrow> string list \<Rightarrow> dict \<Rightarrow> error + dict" where
  "strip_no_idc h [] blend = Inr blend"
| "strip_no_idc h (iso3 # ks) blend =
     (case map_of blend iso3 of
        None \<Rightarrow> Inl KeyError
      | Some a \<Rightarrow>
          (if (case h a ''idc'' of None \<Rightarrow> '''' | Some v \<Rightarrow> v) = ''''
           then strip_no_idc h ks (AList.delete iso3 blend)
           else strip_no_idc h ks blend))"

text \<open>
  \<open>make_dataset\<close> up to the point where the mapping is handed to the writers; the
  three downloads are its inputs.
\<close>

definition make_dataset ::
  "(string list \<Rightarrow> string list) \<Rightarrow> heap \<Rightarrow> dict \<Rightarrow> dict \<Rightarrow> (string \<times> string list) list \<Rightarrow> bool
     \<Rightarrow> error + heap \<times> dict \<times> addr list" where
  "make_dataset order h und wad country_codes ignore =
     (case blend_un_wad order h und wad of
        Inl e \<Rightarrow> Inl e
      | Inr (h1, blend, patched) \<Rightarrow>
         (case map_numbers h1 blend country_codes of
            (h2, Some e) \<Rightarrow> Inl e
          | (h2, None) \<Rightarrow>
             (if ignore then
                (case strip_no_idc h2 (map fst blend) blend of
                   Inl e \<Rightarrow> Inl e
                 | Inr blend' \<Rightarrow> Inr (h2, blend', patched))
              else Inr (h2, blend, patched))))"

section \<open>Well-formed datasets\<close>

text \<open>
  What the two adapters return (lines 130 and 165): a dict with distinct keys in which
  every record is stored under its own \<open>iso3\<close> and has a \<open>number\<close> and a \<open>name\<close>.
  Two such keys cannot hold the same record object.
\<close>

definition wf_dataset :: "heap \<Rightarrow> dict \<Rightarrow> bool" where
  "wf_dataset h ds \<longleftrightarrow>
     distinct (map fst ds) \<and>
     (\<forall>(k, a) \<in> set ds. h a ''iso3'' = Some k \<and> h a ''number'' \<noteq> None \<and> h a ''name'' \<noteq> None)"

section \<open>Notions used in the proofs about the blender\<close>

text \<open>
  On well-formed datasets that share no record object, one pass of the loop of
  \<open>blend_un_wad\<close> does one of three things to its item \<open>(k, d)\<close>: it merges the
  primary record stored under \<open>k\<close> into \<open>d\<close>, it re-keys \<open>d\<close> to the primary record
  with the same number, or it leaves \<open>d\<close> alone. The functions below read the case,
  the key under which \<open>d\<close> is stored afterwards, the new contents of \<open>d\<close> and the
  flag \<open>PATCHED\<close> from the heap before the call. They are not part of the program:
  \<open>blend_step_outcome\<close> proves that the loop body computes them, and the theorems
  about the blender are stated on \<open>blend_un_wad\<close> itself.
\<close>

datatype outcome = Merged addr | Rekeyed addr | Untouched

definition item_outcome :: "heap \<Rightarrow> dict \<Rightarrow> dict \<Rightarrow> string \<Rightarrow> addr \<Rightarrow> outcome" where
  "item_outcome h0 und isonum k d =
     (case map_of und k of
        Some u \<Rightarrow> Merged u
      | None \<Rightarrow>
         (case h0 d ''number'' of
            None \<Rightarrow> Untouched
          | Some dn \<Rightarrow> (case map_of isonum dn of Some u \<Rightarrow> Rekeyed u | None \<Rightarrow> Untouched)))"

fun target :: "heap \<Rightarrow> string \<Rightarrow> outcome \<Rightarrow> string" where
  "target h0 k (Merged u) = k"
| "target h0 k (Rekeyed u) = the (h0 u ''iso3'')"
| "target h0 k Untouched = k"

fun new_record :: "heap \<Rightarrow> addr \<Rightarrow> outcome \<Rightarrow> country" where
  "new_record h0 d (Merged u) =
     (h0 d)(''number'' \<mapsto> the (h0 u ''number''), ''name'' \<mapsto> upper (the (h0 u ''name'')))"
| "new_record h0 d (Rekeyed u) =
     (h0 d)(''iso3'' \<mapsto> the (h0 u ''iso3''), ''name'' \<mapsto> upper (the (h0 u ''name'')))"
| "new_record h0 d Untouched = h0 d"

fun is_patched :: "heap \<Rightarrow> addr \<Rightarrow> outcome \<Rightarrow> bool" where
  "is_patched h0 d (Merged u) \<longleftrightarrow>
     h0 d ''number'' \<noteq> h0 u ''number'' \<or> h0 d ''name'' \<noteq> Some (upper (the (h0 u ''name'')))"
| "is_patched h0 d (Rekeyed u) \<longleftrightarrow> True"
| "is_patched h0 d Untouched \<longleftrightarrow> False"

fun rekey_delete :: "string \<Rightarrow> outcome \<Rightarrow> dict \<Rightarrow> dict" where
  "rekey_delete k (Rekeyed u) nd = AList.delete k nd"
| "rekey_delete k (Merged u) nd = nd"
| "rekey_delete k Untouched nd = nd"

text \<open>
  The invariant of the loop, for the items \<open>seen\<close> so far and the items in \<open>rest\<close>:
  only records already seen have changed, and they hold their new contents;
  \<open>patched\<close> lists the seen records whose flag was set; every entry of \<open>newdata\<close> is
  an item not yet seen or a seen record under its new key; a new key that is a primary
  key is still present; the keys not yet seen are still present; keys are distinct.
\<close>

definition blend_inv :: "heap \<Rightarrow> dict \<Rightarrow> dict \<Rightarrow> dict \<Rightarrow> dict \<Rightarrow> heap \<times> dict \<times> addr list \<Rightarrow> bool" where
  "blend_inv h0 und isonum seen rest s \<longleftrightarrow>
     (case s of (h, nd, p) \<Rightarrow>
        (\<forall>a. a \<notin> snd ` set seen \<longrightarrow> h a = h0 a)
      \<and> (\<forall>(k, d) \<in> set seen. h d = new_record h0 d (item_outcome h0 und isonum k d))
      \<and> p = map snd (filter (\<lambda>(k, d). is_patched h0 d (item_outcome h0 und isonum k d)) seen)
      \<and> (\<forall>(key, a) \<in> set nd. (key, a) \<in> set rest
            \<or> (\<exists>k. (k, a) \<in> set seen \<and> key = target h0 k (item_outcome h0 und isonum k a)))
      \<and> (\<forall>(k, d) \<in> set seen. target h0 k (item_outcome h0 und isonum k d) \<in> fst ` set und \<longrightarrow>
            target h0 k (item_outcome h0 und isonum k d) \<in> fst ` set nd)
      \<and> fst ` set rest \<subseteq> fst ` set nd
      \<and> distinct (map fst nd))"

section \<open>Example datasets\<close>

text \<open>
  The conflict example of the specification: the primary record
  \<open>{iso3: "ABC", number: "004", name: "Foo"}\<close> at address 0 and the broad record
  \<open>{iso3: "ABC", number: "005", name: "FOO BAR"}\<close> (with an \<open>iso2\<close>) at address 1.
\<close>

definition conflict_heap :: heap where
  "conflict_heap =
     (\<lambda>_. Map.empty)
       (0 := [''iso3'' \<mapsto> ''ABC'', ''number'' \<mapsto> ''004'', ''name'' \<mapsto> ''Foo''],
        1 := [''iso2'' \<mapsto> ''AB'', ''iso3'' \<mapsto> ''ABC'', ''number'' \<mapsto> ''005'',
              ''name'' \<mapsto> ''FOO BAR''])"

text \<open>
  The exact-match example of the specification: one blended record named FRANCE.
\<close>

definition france_heap :: heap where
  "france_heap =
     (\<lambda>_. Map.empty)
       (0 := [''iso2'' \<mapsto> ''FR'', ''iso3'' \<mapsto> ''FRA'', ''number'' \<mapsto> ''250'',
              ''name'' \<mapsto> ''FRANCE''])"

text \<open>
  Three records whose names contain SAINT MARTIN; address 0 has exactly that name.
\<close>

definition martin_heap :: heap where
  "martin_heap =
     (\<lambda>_. Map.empty)
       (0 := [''iso3'' \<mapsto> ''MAF'', ''number'' \<mapsto> ''663'', ''name'' \<mapsto> ''SAINT MARTIN''],
        1 := [''iso3'' \<mapsto> ''MAR'', ''number'' \<mapsto> ''664'', ''name'' \<mapsto> ''SAINT MARTIN (FRENCH)''],
        2 := [''iso3'' \<mapsto> ''SXM'', ''number'' \<mapsto> ''534'', ''name'' \<mapsto> ''SAINT MARTIN (DUTCH)''])"

text \<open>
  Records for runs of the blender and of the whole pipeline. Primary records: France
  (address 0), South Sudan (3), which the broad source does not have, and Romania (4).
  Broad records: FRANCE (1), ANTARCTICA (2), which the primary source does not have,
  and ROMANIA (5), stored under the ISO3 \<open>ROM\<close> where the primary source has \<open>ROU\<close>.
  Two more broad records: France (6), equal to the primary record in number and name,
  and ROMANIA (7), stored under \<open>ROU\<close>.
\<close>

definition blend_heap :: heap where
  "blend_heap =
     (\<lambda>_. Map.empty)
       (0 := [''iso3'' \<mapsto> ''FRA'', ''number'' \<mapsto> ''250'', ''name'' \<mapsto> ''France''],
        1 := [''iso2'' \<mapsto> ''FR'', ''iso3'' \<mapsto> ''FRA'', ''number'' \<mapsto> ''250'',
              ''name'' \<mapsto> ''FRANCE''],
        2 := [''iso2'' \<mapsto> ''AQ'', ''iso3'' \<mapsto> ''ATA'', ''number'' \<mapsto> ''010'',
              ''name'' \<mapsto> ''ANTARCTICA''],
        3 := [''iso3'' \<mapsto> ''SSD'', ''number'' \<mapsto> ''728'', ''name'' \<mapsto> ''South Sudan''],
        4 := [''iso3'' \<mapsto> ''ROU'', ''number'' \<mapsto> ''642'', ''name'' \<mapsto> ''Romania''],
        5 := [''iso2'' \<mapsto> ''RO'', ''iso3'' \<mapsto> ''ROM'', ''number'' \<mapsto> ''642'',
              ''name'' \<mapsto> ''ROMANIA''],
        6 := [''iso2'' \<mapsto> ''FR'', ''iso3'' \<mapsto> ''FRA'', ''number'' \<mapsto> ''250'',
              ''name'' \<mapsto> ''France''],
        7 := [''iso2'' \<mapsto> ''RO'', ''iso3'' \<mapsto> ''ROU'', ''number'' \<mapsto> ''642'',
              ''name'' \<mapsto> ''ROMANIA''])"

text \<open>
  A name with a Latin-1 letter, the island of Reunion: in the primary record at
  address 0 the second character of the name is the e with acute accent (code point
  233), in the broad record at address 1 the name is in capitals (code point 201).
\<close>

definition reunion_heap :: heap where
  "reunion_heap =
     (\<lambda>_. Map.empty)
       (0 := [''iso3'' \<mapsto> ''REU'', ''number'' \<mapsto> ''638'',
              ''name'' \<mapsto> ''R'' @ [CHR 0xE9] @ ''union''],
        1 := [''iso2'' \<mapsto> ''RE'', ''iso3'' \<mapsto> ''REU'', ''number'' \<mapsto> ''638'',
              ''name'' \<mapsto> ''R'' @ [CHR 0xC9] @ ''UNION''])"

section \<open>Properties of the string methods\<close>

lemma low_bits:
  "(of_bool b0 + 2 * (of_bool b1 + 2 * (of_bool b2 + 2 * (of_bool b3 + 2 * of_bool b4))) :: nat) < 32"
  by (cases b0; cases b1; cases b2; cases b3; cases b4; simp)

lemma of_char_no_bit5:
  "\<exists>low < 32. (of_char (Char b0 b1 b2 b3 b4 False b6 b7) :: nat)
      = low + 64 * of_bool b6 + 128 * of_bool b7"
  using low_bits [of b0 b1 b2 b3 b4]
  by (intro exI [of _ "of_bool b0 + 2 * (of_bool b1 + 2 * (of_bool b2 + 2 * (of_bool b3 + 2 * of_bool b4)))"])
     simp

text \<open>A character with bit 5 clear is no lower-case letter.\<close>

lemma upper_char_capital:
  "upper_char (Char b0 b1 b2 b3 b4 False b6 b7) = Char b0 b1 b2 b3 b4 False b6 b7"
proof -
  obtain low :: nat where low: "low < 32"
    and n: "(of_char (Char b0 b1 b2 b3 b4 False b6 b7) :: nat)
        = low + 64 * of_bool b6 + 128 * of_bool b7"
    using of_char_no_bit5 by blast
  have "\<not> ((97 \<le> low + 64 * of_bool b6 + 128 * of_bool b7
            \<and> low + 64 * of_bool b6 + 128 * of_bool b7 \<le> 122)
      \<or> (224 \<le> low + 64 * of_bool b6 + 128 * of_bool b7
            \<and> low + 64 * of_bool b6 + 128 * of_bool b7 \<le> 254
            \<and> low + 64 * of_bool b6 + 128 * of_bool b7 \<noteq> 247))"
    using low by (cases b6; cases b7; simp)
  then show ?thesis
    unfolding upper_char_def Let_def n by (simp only: if_False)
qed

lemma if_either: "(if P then a else b) = b \<or> (if P then a else b) = a"
  by simp

lemma upper_char_idem: "upper_char (upper_char c) = upper_char c"
proof (cases c)
  case (Char b0 b1 b2 b3 b4 b5 b6 b7)
  have "upper_char c = c \<or> upper_char c = Char b0 b1 b2 b3 b4 False b6 b7"
    unfolding upper_char_def Let_def Char char.case by (rule if_either)
  then show ?thesis
  proof
    assume "upper_char c = c"
    then show ?thesis by simp
  next
    assume "upper_char c = Char b0 b1 b2 b3 b4 False b6 b7"
    then show ?thesis by (simp only: upper_char_capital)
  qed
qed

lemma upper_idem: "upper (upper s) = upper s"
  by (simp add: upper_def upper_char_idem)

text \<open>
  Latin-1 letters are upper-cased, the division sign and the sharp s are not.
\<close>

lemma upper_latin1:
  "upper (''R'' @ [CHR 0xE9] @ ''union'') = ''R'' @ [CHR 0xC9] @ ''UNION''"
  "upper [CHR 0xE0, CHR 0xFE, CHR 0xF7, CHR 0xDF] = [CHR 0xC0, CHR 0xDE, CHR 0xF7, CHR 0xDF]"
  by (simp_all add: upper_def upper_char_def)

section \<open>Properties of the number splitting\<close>

lemma split_sp_hd: "\<exists>ts. split_sp s = takeWhile (\<lambda>c. c \<noteq> CHR '' '') s # ts"
  by (induction s) auto

lemma pop1_all_ok:
  "\<forall>x \<in> set xs. 1 < length x \<Longrightarrow> pop1_all xs = Inr (map (\<lambda>x. x ! 1) xs)"
proof (induction xs)
  case Nil
  then show ?case by simp
next
  case (Cons x xs)
  then obtain t0 t1 ts where "x = t0 # t1 # ts"
    by (cases x; cases "tl x") auto
  with Cons show ?case by simp
qed

lemma assign_regions_nth:
  "distinct regions \<Longrightarrow> length rcs \<le> length regions \<Longrightarrow>
     \<exists>r. assign_regions regions rcs result = Inr r
       \<and> (\<forall>i < length regions.
             r (regions ! i) = (if i < length rcs then Some (rcs ! i) else result (regions ! i)))
       \<and> (\<forall>k. k \<notin> set regions \<longrightarrow> r k = result k)"
proof (induction regions rcs result rule: assign_regions.induct)
  case (1 regions result)
  then show ?case by simp
next
  case (2 rc rcs result)
  then show ?case by simp
next
  case (3 r regions rc rcs result)
  from "3.prems" have d: "distinct regions" and l: "length rcs \<le> length regions" by simp_all
  from "3.IH" [OF d l] obtain r' where r': "assign_regions regions rcs (result(r \<mapsto> rc)) = Inr r'"
    and nth: "\<forall>i < length regions. r' (regions ! i) =
       (if i < length rcs then Some (rcs ! i) else (result(r \<mapsto> rc)) (regions ! i))"
    and other: "\<forall>k. k \<notin> set regions \<longrightarrow> r' k = (result(r \<mapsto> rc)) k"
    by blast
  from "3.prems" have notin: "r \<notin> set regions" by simp
  have "r' ((r # regions) ! i) =
          (if i < length (rc # rcs) then Some ((rc # rcs) ! i) else result ((r # regions) ! i))"
    if "i < length (r # regions)" for i
  proof (cases i)
    case 0
    with other notin show ?thesis by simp
  next
    case (Suc j)
    with that have j: "j < length regions" by simp
    then have "regions ! j \<noteq> r" using notin by (metis nth_mem)
    with nth j Suc show ?thesis by simp
  qed
  moreover have "r' k = result k" if "k \<notin> set (r # regions)" for k
    using that other by simp
  ultimately show ?case using r' by simp
qed

lemma assign_regions_other:
  "assign_regions regions rcs result = Inr r \<Longrightarrow> k \<notin> set regions \<Longrightarrow> r k = result k"
  by (induction regions rcs result rule: assign_regions.induct) auto

lemma tokens_first:
  "\<exists>ts. tokens x = takeWhile (\<lambda>c. c \<noteq> CHR '' '') (strip (filter (\<lambda>c. c \<noteq> CHR ''+'') x)) # ts"
  unfolding tokens_def by (rule split_sp_hd)

lemma split_numbers_Inr_idc:
  assumes "split_numbers (x # xs) = Inr r"
  shows "r ''idc'' = Some (takeWhile (\<lambda>c. c \<noteq> CHR '' '') (strip (filter (\<lambda>c. c \<noteq> CHR ''+'') x)))"
proof -
  obtain ts where t: "tokens x = takeWhile (\<lambda>c. c \<noteq> CHR '' '') (strip (filter (\<lambda>c. c \<noteq> CHR ''+'') x)) # ts"
    using tokens_first by blast
  show ?thesis
  proof (cases "ts = []")
    case True
    with t assms show ?thesis by (auto simp: split_numbers_def)
  next
    case False
    with t assms obtain rcs where
      "assign_regions [''region_a'', ''region_b'', ''region_c'', ''region_d''] rcs
         [''idc'' \<mapsto> takeWhile (\<lambda>c. c \<noteq> CHR '' '') (strip (filter (\<lambda>c. c \<noteq> CHR ''+'') x))] = Inr r"
      by (auto simp: split_numbers_def split: sum.splits)
    from assign_regions_other [OF this, of "''idc''"] show ?thesis by simp
  qed
qed

lemma split_numbers_single:
  assumes "length (tokens x) \<le> 1" and "split_numbers (x # xs) = Inr r"
  shows "\<forall>k. k \<noteq> ''idc'' \<longrightarrow> r k = None"
  using assms tokens_first [of x] by (auto simp: split_numbers_def)

lemma split_numbers_all:
  assumes all: "\<forall>y \<in> set (x # xs). 1 < length (tokens y)" and le: "length (x # xs) \<le> 4"
  shows "\<exists>r. split_numbers (x # xs) = Inr r \<and>
          (\<forall>i < 4. r ([''region_a'', ''region_b'', ''region_c'', ''region_d''] ! i) =
             (if i < length (x # xs) then Some (tokens ((x # xs) ! i) ! 1) else None))"
proof -
  define regions where "regions = [''region_a'', ''region_b'', ''region_c'', ''region_d'']"
  define ys where "ys = x # xs"
  define rcs where "rcs = map (\<lambda>x. x ! 1) (map tokens ys)"
  obtain ts where t: "tokens x = takeWhile (\<lambda>c. c \<noteq> CHR '' '') (strip (filter (\<lambda>c. c \<noteq> CHR ''+'') x)) # ts"
    using tokens_first by blast
  define res where "res = [''idc'' \<mapsto> takeWhile (\<lambda>c. c \<noteq> CHR '' '') (strip (filter (\<lambda>c. c \<noteq> CHR ''+'') x))]"
  have pop: "pop1_all (map tokens ys) = Inr rcs"
    unfolding rcs_def using all by (intro pop1_all_ok) (auto simp: ys_def)
  have dist: "distinct regions" and len4: "length regions = 4"
    by (simp_all add: regions_def)
  have len: "length rcs = length ys" by (simp add: rcs_def)
  with le len4 have "length rcs \<le> length regions" by (simp add: ys_def)
  with dist obtain r where r: "assign_regions regions rcs res = Inr r"
    and nth: "\<forall>i < length regions. r (regions ! i) =
       (if i < length rcs then Some (rcs ! i) else res (regions ! i))"
    using assign_regions_nth [of regions rcs res] by blast
  have "1 < length (tokens x)" using all by simp
  then have sn: "split_numbers (x # xs) = Inr r"
    using t pop r
    by (simp add: split_numbers_def ys_def regions_def res_def
             del: pop1_all.simps assign_regions.simps)
  have "r (regions ! i) = (if i < length ys then Some (tokens (ys ! i) ! 1) else None)"
    if "i < 4" for i
  proof -
    from that have "i = 0 \<or> i = 1 \<or> i = 2 \<or> i = 3" by arith
    then have none: "res (regions ! i) = None" by (auto simp: res_def regions_def)
    have "rcs ! i = tokens (ys ! i) ! 1" if "i < length ys"
      using that by (simp add: rcs_def)
    with nth \<open>i < 4\<close> len4 len none show ?thesis by simp
  qed
  with sn show ?thesis unfolding regions_def ys_def by blast
qed


text \<open>
  C2, as the code has it. For a non-empty list of raw strings: whenever
  \<open>_split_numbers\<close> returns, \<open>idc\<close> is the first entry, with every \<open>+\<close> removed and
  stripped, up to its first space; when the first entry has one token only, the call
  returns and sets no field but \<open>idc\<close>, whatever the other entries hold; when every
  entry has a second token and there are at most four entries, the call returns and
  the second tokens are stored in source order under \<open>region_a\<close> to \<open>region_d\<close>,
  the regions beyond the number of entries staying unset.
\<close>

theorem split_numbers_regions:
  "(\<forall>r. split_numbers (x # xs) = Inr r \<longrightarrow>
      r ''idc'' = Some (takeWhile (\<lambda>c. c \<noteq> CHR '' '') (strip (filter (\<lambda>c. c \<noteq> CHR ''+'') x))))
   \<and> (length (tokens x) \<le> 1 \<longrightarrow>
      (\<exists>r. split_numbers (x # xs) = Inr r \<and> (\<forall>k. k \<noteq> ''idc'' \<longrightarrow> r k = None)))
   \<and> ((\<forall>y \<in> set (x # xs). 1 < length (tokens y)) \<and> length (x # xs) \<le> 4 \<longrightarrow>
      (\<exists>r. split_numbers (x # xs) = Inr r \<and>
         (\<forall>i < 4. r ([''region_a'', ''region_b'', ''region_c'', ''region_d''] ! i) =
            (if i < length (x # xs) then Some (tokens ((x # xs) ! i) ! 1) else None))))"
proof (intro conjI allI impI)
  fix r assume "split_numbers (x # xs) = Inr r"
  then show "r ''idc'' = Some (takeWhile (\<lambda>c. c \<noteq> CHR '' '') (strip (filter (\<lambda>c. c \<noteq> CHR ''+'') x)))"
    by (rule split_numbers_Inr_idc)
next
  assume one: "length (tokens x) \<le> 1"
  then obtain r where r: "split_numbers (x # xs) = Inr r"
    using tokens_first [of x] by (auto simp: split_numbers_def)
  with one have "\<forall>k. k \<noteq> ''idc'' \<longrightarrow> r k = None"
    by (rule split_numbers_single)
  with r show "\<exists>r. split_numbers (x # xs) = Inr r \<and> (\<forall>k. k \<noteq> ''idc'' \<longrightarrow> r k = None)"
    by blast
next
  assume "(\<forall>y \<in> set (x # xs). 1 < length (tokens y)) \<and> length (x # xs) \<le> 4"
  then show "\<exists>r. split_numbers (x # xs) = Inr r \<and>
         (\<forall>i < 4. r ([''region_a'', ''region_b'', ''region_c'', ''region_d''] ! i) =
            (if i < length (x # xs) then Some (tokens ((x # xs) ! i) ! 1) else None))"
    using split_numbers_all [of x xs] by blast
qed

text \<open>
  The input of the specification, \<open>["+1 242", "+1 246"]\<close>: both entries have a second
  token, and the result has \<open>idc\<close> 1, \<open>region_a\<close> 242 and \<open>region_b\<close> 246.
\<close>

theorem split_numbers_regions_witness:
  "1 < length (tokens ''+1 242'') \<and> 1 < length (tokens ''+1 246'')
   \<and> length [''+1 242'', ''+1 246''] \<le> 4
   \<and> (\<exists>r. split_numbers [''+1 242'', ''+1 246''] = Inr r
         \<and> r ''idc'' = Some ''1'' \<and> r ''region_a'' = Some ''242''
         \<and> r ''region_b'' = Some ''246'' \<and> r ''region_c'' = None)"
proof -
  have t1: "1 < length (tokens ''+1 242'')" and t2: "1 < length (tokens ''+1 246'')"
    by (simp_all add: tokens_def strip_def is_space_def)
  then have hyp: "(\<forall>y \<in> set [''+1 242'', ''+1 246'']. 1 < length (tokens y))
      \<and> length [''+1 242'', ''+1 246''] \<le> 4"
    by simp
  note spec = split_numbers_regions [of "''+1 242''" "[''+1 246'']"]
  from spec hyp obtain r where r: "split_numbers [''+1 242'', ''+1 246''] = Inr r"
    and nth: "\<forall>i < 4. r ([''region_a'', ''region_b'', ''region_c'', ''region_d''] ! i) =
       (if i < length [''+1 242'', ''+1 246''] then Some (tokens ([''+1 242'', ''+1 246''] ! i) ! 1)
        else None)"
    by blast
  from spec r have "r ''idc'' = Some ''1''"
    by (simp add: strip_def is_space_def)
  moreover from nth [rule_format, of 0] have "r ''region_a'' = Some ''242''"
    by (simp add: tokens_def strip_def is_space_def)
  moreover from nth [rule_format, of 1] have "r ''region_b'' = Some ''246''"
    by (simp add: tokens_def strip_def is_space_def)
  moreover from nth [rule_format, of 2] have "r ''region_c'' = None"
    by simp
  ultimately show ?thesis using t1 t2 r by simp
qed

text \<open>
  C2 as stated fails on the code. The test for region codes reads the first entry only:
  after \<open>"+1"\<close>, the second token of \<open>"+1 242"\<close> is not collected. An entry without a
  second token after a first entry with one raises IndexError, and so does a fifth
  region code, which is not dropped.
\<close>

theorem split_numbers_counterexample:
  "split_numbers [''+1'', ''+1 242''] = Inr [''idc'' \<mapsto> ''1'']
   \<and> split_numbers [''+1 242'', ''+1''] = Inl IndexError
   \<and> split_numbers [''+1 2'', ''+1 3'', ''+1 4'', ''+1 5'', ''+1 6''] = Inl IndexError"
  by (simp add: split_numbers_def tokens_def strip_def is_space_def)

section \<open>Properties of the reindexer\<close>

lemma length_update_new:
  "k \<notin> fst ` set al \<Longrightarrow> length (AList.update k v al) = Suc (length al)"
  by (induction al) auto

lemma reindex_loop_Inr:
  "\<forall>a \<in> set ds. h a key \<noteq> None \<Longrightarrow> \<exists>nd. reindex_loop h key ds acc = Inr nd"
  by (induction ds arbitrary: acc) auto

lemma reindex_loop_present:
  "reindex_loop h key ds acc = Inr nd \<Longrightarrow> a \<in> set ds \<Longrightarrow> h a key \<noteq> None"
  by (induction ds arbitrary: acc) (auto split: option.splits)

lemma reindex_loop_other:
  "reindex_loop h key ds acc = Inr nd \<Longrightarrow> \<forall>a \<in> set ds. h a key \<noteq> Some v \<Longrightarrow>
     map_of nd v = map_of acc v"
  by (induction ds arbitrary: acc) (auto split: option.splits simp: update_conv')

lemma reindex_loop_lookup:
  "reindex_loop h key ds acc = Inr nd \<Longrightarrow> map_of nd v = Some a \<Longrightarrow>
     (a \<in> set ds \<and> h a key = Some v) \<or> map_of acc v = Some a"
proof (induction ds arbitrary: acc)
  case Nil
  then show ?case by simp
next
  case (Cons d ds)
  from Cons.prems(1) obtain w where w: "h d key = Some w"
    and rec: "reindex_loop h key ds (AList.update w d acc) = Inr nd"
    by (auto split: option.splits)
  from Cons.IH [OF rec Cons.prems(2)] show ?case
    using w by (auto simp: update_conv' split: if_splits)
qed

lemma reindex_loop_keys:
  "reindex_loop h key ds acc = Inr nd \<Longrightarrow>
     fst ` set nd = fst ` set acc \<union> {v. \<exists>a \<in> set ds. h a key = Some v}"
proof (induction ds arbitrary: acc)
  case Nil
  then show ?case by simp
next
  case (Cons d ds)
  from Cons.prems obtain w where w: "h d key = Some w"
    and rec: "reindex_loop h key ds (AList.update w d acc) = Inr nd"
    by (auto split: option.splits)
  from Cons.IH [OF rec] show ?case
    using w by (auto simp: dom_update)
qed

lemma reindex_loop_distinct:
  "reindex_loop h key ds acc = Inr nd \<Longrightarrow> distinct (map fst acc) \<Longrightarrow> distinct (map fst nd)"
  by (induction ds arbitrary: acc) (auto split: option.splits simp: distinct_update)

lemma reindex_loop_reach:
  "reindex_loop h key ds acc = Inr nd \<Longrightarrow> distinct (map (\<lambda>a. h a key) ds) \<Longrightarrow>
     a \<in> set ds \<Longrightarrow> h a key = Some v \<Longrightarrow> map_of nd v = Some a"
proof (induction ds arbitrary: acc)
  case Nil
  then show ?case by simp
next
  case (Cons d ds)
  from Cons.prems(1) obtain w where w: "h d key = Some w"
    and rec: "reindex_loop h key ds (AList.update w d acc) = Inr nd"
    by (auto split: option.splits)
  show ?case
  proof (cases "a \<in> set ds")
    case True
    with Cons.IH [OF rec] Cons.prems show ?thesis by simp
  next
    case False
    with Cons.prems have ad: "a = d" by simp
    with w Cons.prems have wv: "w = v" by simp
    from Cons.prems(2) ad Cons.prems(4) have "\<forall>b \<in> set ds. h b key \<noteq> Some v"
      by (force simp: image_iff)
    from reindex_loop_other [OF rec this] show ?thesis
      using ad wv by (simp add: update_conv')
  qed
qed

lemma reindex_loop_length:
  "reindex_loop h key ds acc = Inr nd \<Longrightarrow> distinct (map (\<lambda>a. h a key) ds) \<Longrightarrow>
     \<forall>a \<in> set ds. \<forall>v. h a key = Some v \<longrightarrow> v \<notin> fst ` set acc \<Longrightarrow>
     length nd = length acc + length ds"
proof (induction ds arbitrary: acc)
  case Nil
  then show ?case by simp
next
  case (Cons d ds)
  from Cons.prems(1) obtain w where w: "h d key = Some w"
    and rec: "reindex_loop h key ds (AList.update w d acc) = Inr nd"
    by (auto split: option.splits)
  from Cons.prems(3) w have new: "w \<notin> fst ` set acc" by simp
  have "\<forall>a \<in> set ds. \<forall>v. h a key = Some v \<longrightarrow> v \<notin> fst ` set (AList.update w d acc)"
  proof (intro ballI allI impI)
    fix a v assume a: "a \<in> set ds" and v: "h a key = Some v"
    with Cons.prems(3) have "v \<notin> fst ` set acc" by simp
    moreover from Cons.prems(2) a v w have "v \<noteq> w" by force
    ultimately show "v \<notin> fst ` set (AList.update w d acc)" by (simp add: dom_update)
  qed
  with Cons.IH [OF rec] Cons.prems(2) have "length nd = length (AList.update w d acc) + length ds"
    by simp
  with new show ?case by (simp add: length_update_new)
qed

text \<open>
  C8. When every record of the input has the field and the values of the field differ
  from entry to entry, \<open>reindex\<close> returns a mapping with as many entries as the
  input, and each input record is found there under its own value of the field.
\<close>

theorem reindex_unique:
  assumes present: "\<forall>a \<in> set (map snd dataset). h a key \<noteq> None"
    and unique: "distinct (map (\<lambda>a. h a key) (map snd dataset))"
  shows "\<exists>newdict. reindex h dataset key = Inr newdict
           \<and> length newdict = length dataset
           \<and> (\<forall>a \<in> set (map snd dataset). \<exists>v. h a key = Some v \<and> map_of newdict v = Some a)"
proof -
  from present obtain nd where nd: "reindex_loop h key (map snd dataset) [] = Inr nd"
    using reindex_loop_Inr by blast
  from reindex_loop_length [OF nd unique] have "length nd = length dataset" by simp
  moreover have "\<exists>v. h a key = Some v \<and> map_of nd v = Some a" if "a \<in> set (map snd dataset)" for a
  proof -
    from present that obtain v where "h a key = Some v" by auto
    with reindex_loop_reach [OF nd unique that] show ?thesis by blast
  qed
  ultimately show ?thesis using nd unfolding reindex_def by blast
qed


theorem reindex_unique_witness:
  "conflict_heap 0 ''number'' \<noteq> None \<and> conflict_heap 1 ''number'' \<noteq> None
   \<and> distinct [conflict_heap 0 ''number'', conflict_heap 1 ''number'']
   \<and> (\<exists>newdict. reindex conflict_heap [(''ABC'', 0), (''XYZ'', 1)] ''number'' = Inr newdict
          \<and> length newdict = 2
          \<and> map_of newdict ''004'' = Some 0 \<and> map_of newdict ''005'' = Some 1)"
proof -
  have p: "\<forall>a \<in> set (map snd [(''ABC'', 0), (''XYZ'', 1)]). conflict_heap a ''number'' \<noteq> None"
    by (simp add: conflict_heap_def)
  have u: "distinct (map (\<lambda>a. conflict_heap a ''number'') (map snd [(''ABC'', 0), (''XYZ'', 1)]))"
    by (simp add: conflict_heap_def)
  from reindex_unique [where dataset = "[(''ABC'', 0), (''XYZ'', 1)]" and h = conflict_heap
      and key = "''number''", OF p u] obtain newdict
    where r: "reindex conflict_heap [(''ABC'', 0), (''XYZ'', 1)] ''number'' = Inr newdict"
      and l: "length newdict = 2"
      and m: "\<forall>a \<in> set (map snd [(''ABC'', 0), (''XYZ'', 1)]).
                \<exists>v. conflict_heap a ''number'' = Some v \<and> map_of newdict v = Some a"
    by auto
  from m have "map_of newdict ''004'' = Some 0" "map_of newdict ''005'' = Some 1"
    by (simp_all add: conflict_heap_def)
  with r l p u show ?thesis by simp
qed

section \<open>Properties of the code augmenter\<close>

subsection \<open>What \<open>map_numbers\<close> leaves alone\<close>

lemma assign_regions_dom:
  "assign_regions regions rcs result = Inr r \<Longrightarrow> dom r \<subseteq> dom result \<union> set regions"
  by (induction regions rcs result rule: assign_regions.induct) (auto split: if_splits)

lemma split_numbers_dom:
  assumes "split_numbers numbers = Inr r"
  shows "dom r \<subseteq> {''idc'', ''region_a'', ''region_b'', ''region_c'', ''region_d''}"
proof (cases numbers)
  case Nil
  with assms show ?thesis by (simp add: split_numbers_def)
next
  case (Cons x xs)
  obtain idc ts where t: "tokens x = idc # ts"
    using tokens_first by blast
  show ?thesis
  proof (cases "ts = []")
    case True
    with t assms Cons have "r = [''idc'' \<mapsto> idc]"
      by (simp add: split_numbers_def)
    then show ?thesis by simp
  next
    case False
    with t assms Cons obtain rcs where
      "assign_regions [''region_a'', ''region_b'', ''region_c'', ''region_d''] rcs
         [''idc'' \<mapsto> idc] = Inr r"
      by (simp add: split_numbers_def del: pop1_all.simps assign_regions.simps
            split: sum.splits)
    from assign_regions_dom [OF this] show ?thesis by auto
  qed
qed

lemma update_frame:
  assumes "split_numbers ns = Inr r"
  shows "(f \<notin> {''idc'', ''region_a'', ''region_b'', ''region_c'', ''region_d''} \<longrightarrow>
            (h(d := h d ++ r)) a f = h a f)
       \<and> (a \<noteq> d \<longrightarrow> (h(d := h d ++ r)) a = h a)"
proof -
  from split_numbers_dom [OF assms] have
    "f \<notin> {''idc'', ''region_a'', ''region_b'', ''region_c'', ''region_d''} \<Longrightarrow> r f = None"
    by blast
  then show ?thesis by (auto simp: map_add_def)
qed

lemma map_numbers_step_cases:
  assumes "map_numbers_step byname h p = Inr h'"
  shows "h' = h \<or> (\<exists>d r ns. h' = h(d := h d ++ r) \<and> split_numbers ns = Inr r
                           \<and> d \<in> snd ` set byname)"
proof -
  define country where
    "country = (case map_of COUNTRY_MAPPINGS (fst p) of Some c \<Rightarrow> c | None \<Rightarrow> fst p)"
  show ?thesis
  proof (cases "map_of byname country")
    case (Some d)
    then have d: "d \<in> snd ` set byname" by (force dest: map_of_SomeD)
    define ns where "ns = (if country = ''HOLY SEE (VATICAN CITY STATE)''
                          then [''+39 066''] else snd p)"
    from assms Some obtain r where "split_numbers ns = Inr r" "h' = h(d := h d ++ r)"
      unfolding map_numbers_step_def country_def [symmetric] Let_def ns_def [symmetric]
      by (auto split: sum.splits)
    with d show ?thesis by blast
  next
    case None
    define pc where "pc = filter (\<lambda>c. str_find c country \<ge> 0) (map fst byname)"
    from assms None have step:
      "(case pc of
          [c] \<Rightarrow> (case map_of byname c of None \<Rightarrow> Inl KeyError
                  | Some data \<Rightarrow> (case split_numbers (snd p) of Inl e \<Rightarrow> Inl e
                       | Inr r \<Rightarrow> Inr (h(data := h data ++ r))))
        | _ \<Rightarrow> Inr h) = Inr h'"
      unfolding map_numbers_step_def country_def [symmetric] Let_def pc_def [symmetric]
      by simp
    show ?thesis
    proof (cases "\<exists>c. pc = [c]")
      case True
      then obtain c where c: "pc = [c]" by blast
      with step obtain d r where "map_of byname c = Some d" "split_numbers (snd p) = Inr r"
        "h' = h(d := h d ++ r)"
        by (auto split: option.splits sum.splits)
      moreover from this have "d \<in> snd ` set byname" by (force dest: map_of_SomeD)
      ultimately show ?thesis by blast
    next
      case False
      with step have "h' = h"
        by (cases pc; cases "tl pc") auto
      then show ?thesis by simp
    qed
  qed
qed

lemma map_numbers_step_frame:
  assumes "map_numbers_step byname h p = Inr h'"
  shows "(f \<notin> {''idc'', ''region_a'', ''region_b'', ''region_c'', ''region_d''} \<longrightarrow> h' a f = h a f)
       \<and> (a \<notin> snd ` set byname \<longrightarrow> h' a = h a)"
proof -
  from map_numbers_step_cases [OF assms] show ?thesis
  proof
    assume "h' = h"
    then show ?thesis by simp
  next
    assume "\<exists>d r ns. h' = h(d := h d ++ r) \<and> split_numbers ns = Inr r \<and> d \<in> snd ` set byname"
    then obtain d r ns where h': "h' = h(d := h d ++ r)" and sn: "split_numbers ns = Inr r"
      and d: "d \<in> snd ` set byname"
      by blast
    from update_frame [OF sn, of f h d a] d show ?thesis
      unfolding h' by blast
  qed
qed

lemma map_numbers_loop_frame:
  "map_numbers_loop byname h cs = (h', e) \<Longrightarrow>
     (f \<notin> {''idc'', ''region_a'', ''region_b'', ''region_c'', ''region_d''} \<longrightarrow> h' a f = h a f)
       \<and> (a \<notin> snd ` set byname \<longrightarrow> h' a = h a)"
proof (induction cs arbitrary: h)
  case Nil
  then show ?case by simp
next
  case (Cons p ps)
  show ?case
  proof (cases "map_numbers_step byname h p")
    case (Inl err)
    with Cons.prems show ?thesis by simp
  next
    case (Inr h1)
    with Cons.prems have "map_numbers_loop byname h1 ps = (h', e)" by simp
    from Cons.IH [OF this] map_numbers_step_frame [OF Inr, of f a] show ?thesis by auto
  qed
qed

lemma reindex_values:
  assumes "reindex h dataset key = Inr nd"
  shows "snd ` set nd \<subseteq> snd ` set dataset"
proof
  fix a assume "a \<in> snd ` set nd"
  then obtain v where "(v, a) \<in> set nd" by auto
  moreover from reindex_loop_distinct [of h key "map snd dataset" "[]" nd] assms
  have "distinct (map fst nd)" by (simp add: reindex_def)
  ultimately have "map_of nd v = Some a" by simp
  from reindex_loop_lookup [OF _ this, of h key "map snd dataset" "[]"] assms
  show "a \<in> snd ` set dataset" by (simp add: reindex_def)
qed

text \<open>
  C10. \<open>map_numbers\<close> has no statement that assigns into the blended mapping or
  deletes from it (the name \<open>data\<close> is rebound to a record before every
  \<open>update\<close>), so the mapping is an input only and keeps its keys. On the records,
  whether the call returns or raises: every field other than \<open>idc\<close> and
  \<open>region_a\<close> to \<open>region_d\<close> keeps its value, in particular \<open>iso3\<close>, \<open>iso2\<close>,
  \<open>number\<close> and \<open>name\<close>, and a record that is not a value of the mapping is not
  changed at all.
\<close>

theorem map_numbers_frame:
  assumes "map_numbers h data country_codes = (h', e)"
  shows "(f \<notin> {''idc'', ''region_a'', ''region_b'', ''region_c'', ''region_d''} \<longrightarrow> h' a f = h a f)
       \<and> (a \<notin> snd ` set data \<longrightarrow> h' a = h a)"
proof (cases "reindex h data ''name''")
  case (Inl err)
  with assms show ?thesis by (simp add: map_numbers_def)
next
  case (Inr byname)
  with assms have "map_numbers_loop byname h country_codes = (h', e)"
    by (simp add: map_numbers_def)
  from map_numbers_loop_frame [OF this, of f a] reindex_values [OF Inr]
  show ?thesis by auto
qed


theorem map_numbers_frame_witness:
  "''name'' \<notin> {''idc'', ''region_a'', ''region_b'', ''region_c'', ''region_d''}
   \<and> fst (map_numbers france_heap [(''FRA'', 0)] [(''FRANCE'', [''+33''])]) 0 ''name''
       = france_heap 0 ''name''
   \<and> fst (map_numbers france_heap [(''FRA'', 0)] [(''FRANCE'', [''+33''])]) 0 ''idc''
       = Some ''33''"
proof -
  have run: "map_numbers france_heap [(''FRA'', 0)] [(''FRANCE'', [''+33''])] =
      (fst (map_numbers france_heap [(''FRA'', 0)] [(''FRANCE'', [''+33''])]),
       snd (map_numbers france_heap [(''FRA'', 0)] [(''FRANCE'', [''+33''])]))"
    by simp
  have "fst (map_numbers france_heap [(''FRA'', 0)] [(''FRANCE'', [''+33''])]) 0 ''idc''
       = Some ''33''"
    by (simp add: map_numbers_def reindex_def france_heap_def map_numbers_step_def
          COUNTRY_MAPPINGS_def split_numbers_def tokens_def strip_def is_space_def)
  with map_numbers_frame [OF run, of "''name''" 0] show ?thesis by simp
qed

subsection \<open>Misses and ambiguous names\<close>

lemma str_find_sublist: "0 \<le> str_find s sub \<longleftrightarrow> sublist sub s"
  by (induction s) (auto simp: sublist_Cons_right Let_def)

lemma str_find_range: "- 1 \<le> str_find s sub"
  by (induction s) (auto simp: Let_def)

lemma map_numbers_loop_skip:
  assumes "\<And>h. map_numbers_step byname h p = Inr h"
  shows "map_numbers_loop byname h (cs1 @ p # cs2) = map_numbers_loop byname h (cs1 @ cs2)"
  using assms by (induction cs1 arbitrary: h) (auto split: sum.splits)

lemma reindex_keys:
  assumes "reindex h dataset key = Inr nd"
  shows "fst ` set nd = {v. \<exists>a \<in> snd ` set dataset. h a key = Some v}"
  using reindex_loop_keys [of h key "map snd dataset" "[]" nd] assms
  by (simp add: reindex_def)

lemma reindex_distinct:
  assumes "reindex h dataset key = Inr nd"
  shows "distinct (map fst nd)"
  using reindex_loop_distinct [of h key "map snd dataset" "[]" nd] assms
  by (simp add: reindex_def)

lemma map_numbers_step_miss:
  assumes byname: "reindex h0 data ''name'' = Inr byname"
    and country: "country = (case map_of COUNTRY_MAPPINGS c of Some c' \<Rightarrow> c' | None \<Rightarrow> c)"
    and noexact: "\<forall>a \<in> snd ` set data. h0 a ''name'' \<noteq> Some country"
    and cands: "card {n. (\<exists>a \<in> snd ` set data. h0 a ''name'' = Some n) \<and> sublist country n} \<noteq> 1"
  shows "map_numbers_step byname h (c, numbers) = Inr h"
proof -
  from reindex_keys [OF byname] noexact have "country \<notin> fst ` set byname" by auto
  then have none: "map_of byname country = None" by (simp add: map_of_eq_None_iff)
  define pc where "pc = filter (\<lambda>n. str_find n country \<ge> 0) (map fst byname)"
  have "distinct pc" unfolding pc_def using reindex_distinct [OF byname] by simp
  then have "length pc = card (set pc)" by (simp add: distinct_card)
  also have "set pc = {n. (\<exists>a \<in> snd ` set data. h0 a ''name'' = Some n) \<and> sublist country n}"
    unfolding pc_def using reindex_keys [OF byname] by (auto simp: str_find_sublist)
  finally have "length pc \<noteq> 1" using cands by simp
  then have "(case pc of
          [c] \<Rightarrow> (case map_of byname c of None \<Rightarrow> Inl KeyError
                  | Some data \<Rightarrow> (case split_numbers numbers of Inl e \<Rightarrow> Inl e
                       | Inr r \<Rightarrow> Inr (h(data := h data ++ r))))
        | _ \<Rightarrow> Inr h) = Inr h"
    by (cases pc; cases "tl pc") auto
  with none show ?thesis
    unfolding map_numbers_step_def Let_def fst_conv snd_conv country [symmetric] pc_def [symmetric]
    by simp
qed

text \<open>
  C6, as the code has it. Take a pair \<open>(c, numbers)\<close> of \<open>country_codes\<close> whose
  name, after the alias table, is the name of no blended record and is contained in
  none or in more than one of the blended names. Then the pair has no effect at all:
  the call with the pair does to every record, and returns or raises, exactly as the
  call without it. The names of the blended records are read from the heap at the
  call; \<open>map_numbers\<close> never changes a name.
\<close>

theorem map_numbers_miss:
  assumes country: "country = (case map_of COUNTRY_MAPPINGS c of Some c' \<Rightarrow> c' | None \<Rightarrow> c)"
    and noexact: "\<forall>a \<in> snd ` set data. h a ''name'' \<noteq> Some country"
    and cands: "card {n. (\<exists>a \<in> snd ` set data. h a ''name'' = Some n) \<and> sublist country n} \<noteq> 1"
  shows "map_numbers h data (cs1 @ (c, numbers) # cs2) = map_numbers h data (cs1 @ cs2)"
proof (cases "reindex h data ''name''")
  case (Inl e)
  then show ?thesis by (simp add: map_numbers_def)
next
  case (Inr byname)
  have "map_numbers_step byname h' (c, numbers) = Inr h'" for h'
    using map_numbers_step_miss [OF Inr country noexact cands] .
  from map_numbers_loop_skip [of byname "(c, numbers)", OF this] Inr
  show ?thesis by (simp add: map_numbers_def)
qed


text \<open>
  Blended records named SAINT MARTIN (FRENCH) and SAINT MARTIN (DUTCH), incoming name
  SAINT MARTIN: no exact match, two names contain it, and no record is changed.
\<close>

theorem map_numbers_miss_witness:
  "martin_heap 1 ''name'' \<noteq> Some ''SAINT MARTIN'' \<and> martin_heap 2 ''name'' \<noteq> Some ''SAINT MARTIN''
   \<and> sublist ''SAINT MARTIN'' ''SAINT MARTIN (FRENCH)''
   \<and> sublist ''SAINT MARTIN'' ''SAINT MARTIN (DUTCH)''
   \<and> map_numbers martin_heap [(''MAR'', 1), (''SXM'', 2)] [(''SAINT MARTIN'', [''+590''])]
       = (martin_heap, None)"
proof -
  have country: "''SAINT MARTIN'' =
      (case map_of COUNTRY_MAPPINGS ''SAINT MARTIN'' of Some c' \<Rightarrow> c' | None \<Rightarrow> ''SAINT MARTIN'')"
    by (simp add: COUNTRY_MAPPINGS_def)
  have n1: "martin_heap 1 ''name'' \<noteq> Some ''SAINT MARTIN''"
    and n2: "martin_heap 2 ''name'' \<noteq> Some ''SAINT MARTIN''"
    by (simp_all add: martin_heap_def)
  then have noexact:
    "\<forall>a \<in> snd ` set [(''MAR'', 1), (''SXM'', 2)]. martin_heap a ''name'' \<noteq> Some ''SAINT MARTIN''"
    by simp
  have s1: "sublist ''SAINT MARTIN'' ''SAINT MARTIN (FRENCH)''"
    and s2: "sublist ''SAINT MARTIN'' ''SAINT MARTIN (DUTCH)''"
    by (simp_all add: str_find_sublist [symmetric])
  have "{n. (\<exists>a \<in> snd ` set [(''MAR'', 1), (''SXM'', 2)]. martin_heap a ''name'' = Some n)
            \<and> sublist ''SAINT MARTIN'' n}
      = {''SAINT MARTIN (FRENCH)'', ''SAINT MARTIN (DUTCH)''}"
    using s1 s2 by (auto simp: martin_heap_def)
  then have cands:
    "card {n. (\<exists>a \<in> snd ` set [(''MAR'', 1), (''SXM'', 2)]. martin_heap a ''name'' = Some n)
            \<and> sublist ''SAINT MARTIN'' n} \<noteq> 1"
    by simp
  have "map_numbers martin_heap [(''MAR'', 1), (''SXM'', 2)] [] = (martin_heap, None)"
    by (simp add: map_numbers_def reindex_def martin_heap_def)
  with map_numbers_miss [where country = "''SAINT MARTIN''" and c = "''SAINT MARTIN''"
      and h = martin_heap and data = "[(''MAR'', 1), (''SXM'', 2)]" and ?cs1.0 = "[]"
      and numbers = "[''+590'']" and ?cs2.0 = "[]", OF country noexact cands]
  show ?thesis using n1 n2 s1 s2 by simp
qed

text \<open>
  The example the specification gives for C6 fails on the code: with a blended record
  named SAINT MARTIN, the incoming name SAINT MARTIN is an exact match, and that
  record receives the dialing code.
\<close>

theorem map_numbers_miss_counterexample:
  "martin_heap 0 ''name'' = Some ''SAINT MARTIN''
   \<and> martin_heap 1 ''name'' = Some ''SAINT MARTIN (FRENCH)''
   \<and> martin_heap 0 ''idc'' = None
   \<and> fst (map_numbers martin_heap [(''MAF'', 0), (''MAR'', 1)] [(''SAINT MARTIN'', [''+590''])])
        0 ''idc'' = Some ''590''"
  by (simp add: map_numbers_def reindex_def martin_heap_def map_numbers_step_def
        COUNTRY_MAPPINGS_def split_numbers_def tokens_def strip_def is_space_def)


section \<open>Properties of the blender\<close>

subsection \<open>The outcomes of one pass of the loop\<close>

lemma blend_try_either:
  "(\<exists>p. blend_try und h k d = (p, None))
   \<or> (\<exists>u nm un dn dname. map_of und k = Some u \<and> h u ''name'' = Some nm
        \<and> h d ''number'' = Some dn \<and> h u ''number'' = Some un \<and> h d ''name'' = Some dname
        \<and> blend_try und h k d =
         (dn \<noteq> un \<or> dname \<noteq> upper nm,
          Some (h(d := (h d)(''number'' \<mapsto> un, ''name'' \<mapsto> upper nm)))))"
  by (auto simp: blend_try_def Let_def split: option.splits)

lemma blend_try_cases:
  obtains (fail) p where "blend_try und h k d = (p, None)"
  | (ok) u nm un dn dname where "map_of und k = Some u" "h u ''name'' = Some nm"
      "h d ''number'' = Some dn" "h u ''number'' = Some un" "h d ''name'' = Some dname"
      "blend_try und h k d =
         (dn \<noteq> un \<or> dname \<noteq> upper nm,
          Some (h(d := (h d)(''number'' \<mapsto> un, ''name'' \<mapsto> upper nm))))"
  using blend_try_either [of und h k d] by blast

lemma blend_fallback_either:
  "blend_fallback isonum h nd k d = (False, k, h, nd)
   \<or> (\<exists>k'. blend_fallback isonum h nd k d = (False, k', h(d := (h d)(''iso3'' \<mapsto> k')), nd))
   \<or> (\<exists>k' nm. blend_fallback isonum h nd k d =
         (True, k', h(d := (h d)(''iso3'' \<mapsto> k', ''name'' \<mapsto> upper nm)),
          AList.delete k (AList.update k' d nd)))
   \<or> (\<exists>k' nm. blend_fallback isonum h nd k d =
         (False, k', h(d := (h d)(''iso3'' \<mapsto> k', ''name'' \<mapsto> upper nm)),
          AList.update k' d nd))"
  by (auto simp: blend_fallback_def Let_def split: option.splits)

lemma blend_fallback_cases:
  obtains (none) "blend_fallback isonum h nd k d = (False, k, h, nd)"
  | (partial) k' where "blend_fallback isonum h nd k d = (False, k', h(d := (h d)(''iso3'' \<mapsto> k')), nd)"
  | (rekey) k' nm where
      "blend_fallback isonum h nd k d =
         (True, k', h(d := (h d)(''iso3'' \<mapsto> k', ''name'' \<mapsto> upper nm)),
          AList.delete k (AList.update k' d nd))"
  | (nodel) k' nm where
      "blend_fallback isonum h nd k d =
         (False, k', h(d := (h d)(''iso3'' \<mapsto> k', ''name'' \<mapsto> upper nm)),
          AList.update k' d nd)"
  using blend_fallback_either [of isonum h nd k d] by blast

lemma blend_step_distinct:
  assumes "blend_step und isonum (h, nd, p) (k, d) = (h', nd', p')" and "distinct (map fst nd)"
  shows "distinct (map fst nd')"
proof (cases rule: blend_try_cases [of und h k d])
  case (fail q)
  show ?thesis
  proof (cases rule: blend_fallback_cases [of isonum h nd k d])
    case none
    with fail assms show ?thesis by (auto simp: distinct_update)
  next
    case (partial k')
    with fail assms show ?thesis by (auto simp: distinct_update)
  next
    case (rekey k' nm)
    with fail assms show ?thesis by (auto simp: distinct_update distinct_delete)
  next
    case (nodel k' nm)
    with fail assms show ?thesis by (auto simp: distinct_update)
  qed
next
  case (ok u nm un dn dname)
  with assms show ?thesis by (auto simp: distinct_update)
qed

lemma blend_step_dom:
  assumes "blend_step und isonum (h, nd, p) (k, d) = (h', nd', p')"
  shows "dom (h a) \<subseteq> dom (h' a)"
proof (cases rule: blend_try_cases [of und h k d])
  case (fail q)
  show ?thesis
  proof (cases rule: blend_fallback_cases [of isonum h nd k d])
    case none
    with fail assms show ?thesis by auto
  next
    case (partial k')
    with fail assms show ?thesis by auto
  next
    case (rekey k' nm)
    with fail assms show ?thesis by auto
  next
    case (nodel k' nm)
    with fail assms show ?thesis by auto
  qed
next
  case (ok u nm un dn dname)
  with assms show ?thesis by auto
qed

lemma foldl_invariant:
  assumes "P s" and "\<And>s x. x \<in> set xs \<Longrightarrow> P s \<Longrightarrow> P (f s x)"
  shows "P (foldl f s xs)"
  using assms by (induction xs arbitrary: s) auto

lemma blend_loop_distinct:
  assumes "foldl (blend_step und isonum) (h, nd, p) items = (h', nd', p')"
    and "distinct (map fst nd)"
  shows "distinct (map fst nd')"
proof -
  have "distinct (map fst (fst (snd (foldl (blend_step und isonum) (h, nd, p) items))))"
  proof (rule foldl_invariant [where P = "\<lambda>s. distinct (map fst (fst (snd s)))"])
    show "distinct (map fst (fst (snd (h, nd, p))))" using assms by simp
  next
    fix s :: "heap \<times> dict \<times> addr list" and x :: "string \<times> addr"
    assume "distinct (map fst (fst (snd s)))"
    then show "distinct (map fst (fst (snd (blend_step und isonum s x))))"
      using blend_step_distinct [of und isonum "fst s" "fst (snd s)" "snd (snd s)" "fst x" "snd x"]
      by (cases "blend_step und isonum s x") (cases s, cases x, auto)
  qed
  with assms show ?thesis by simp
qed

lemma blend_loop_dom:
  assumes "foldl (blend_step und isonum) (h, nd, p) items = (h', nd', p')"
  shows "dom (h a) \<subseteq> dom (h' a)"
proof -
  have "dom (h a) \<subseteq> dom (fst (foldl (blend_step und isonum) (h, nd, p) items) a)"
  proof (rule foldl_invariant [where P = "\<lambda>s. dom (h a) \<subseteq> dom (fst s a)"])
    show "dom (h a) \<subseteq> dom (fst (h, nd, p) a)" by simp
  next
    fix s :: "heap \<times> dict \<times> addr list" and x :: "string \<times> addr"
    assume "dom (h a) \<subseteq> dom (fst s a)"
    moreover have "dom (fst s a) \<subseteq> dom (fst (blend_step und isonum s x) a)"
      using blend_step_dom [of und isonum "fst s" "fst (snd s)" "snd (snd s)" "fst x" "snd x" _ _ _ a]
      by (cases "blend_step und isonum s x") (cases s, cases x, auto)
    ultimately show "dom (h a) \<subseteq> dom (fst (blend_step und isonum s x) a)" by blast
  qed
  with assms show ?thesis by simp
qed

lemma blend_missing_Inr:
  assumes "set ks \<subseteq> fst ` set und" and "\<forall>a \<in> snd ` set und. h a ''name'' \<noteq> None"
  shows "\<exists>res. blend_missing und ks (h, nd, p) = Inr res"
  using assms
proof (induction ks arbitrary: h nd p)
  case Nil
  then show ?case by simp
next
  case (Cons k ks)
  from Cons.prems(1) obtain u where u: "map_of und k = Some u"
    by (cases "map_of und k") (auto simp: map_of_eq_None_iff)
  then have uin: "u \<in> snd ` set und" by (force dest: map_of_SomeD)
  with Cons.prems(2) obtain nm where nm: "h u ''name'' = Some nm" by auto
  define h2 where "h2 = h(u := (h u)(''iso2'' \<mapsto> '''', ''name'' \<mapsto> upper nm))"
  have "\<forall>a \<in> snd ` set und. h2 a ''name'' \<noteq> None"
    using Cons.prems(2) by (simp add: h2_def)
  moreover from Cons.prems(1) have "set ks \<subseteq> fst ` set und" by simp
  ultimately obtain res
    where "blend_missing und ks (h2, AList.update k u nd, p @ [u]) = Inr res"
    using Cons.IH [of h2 "AList.update k u nd" "p @ [u]"] by blast
  with u nm show ?case by (cases res) (simp add: h2_def)
qed

lemma blend_missing_result:
  assumes "blend_missing und ks (h, nd, p) = Inr (h', nd', p')"
  shows "fst ` set nd' = fst ` set nd \<union> set ks"
    and "distinct (map fst nd) \<Longrightarrow> distinct (map fst nd')"
  using assms
proof (induction ks arbitrary: h nd p)
  case Nil
  { case 1 then show ?case by simp }
  { case 2 then show ?case by simp }
next
  case (Cons k ks)
  { case 1
    then obtain u nm where u: "map_of und k = Some u" and nm: "h u ''name'' = Some nm"
      and rec: "blend_missing und ks
        (h(u := (h u)(''iso2'' \<mapsto> '''', ''name'' \<mapsto> upper nm)), AList.update k u nd, p @ [u])
        = Inr (h', nd', p')"
      by (auto split: option.splits simp: Let_def)
    from Cons.IH(1) [OF rec] show ?case by (auto simp: dom_update) }
  { case 2
    then obtain u nm where u: "map_of und k = Some u" and nm: "h u ''name'' = Some nm"
      and rec: "blend_missing und ks
        (h(u := (h u)(''iso2'' \<mapsto> '''', ''name'' \<mapsto> upper nm)), AList.update k u nd, p @ [u])
        = Inr (h', nd', p')"
      by (auto split: option.splits simp: Let_def)
    from Cons.IH(2) [OF _ rec] 2(1) show ?case by (simp add: distinct_update) }
qed

subsection \<open>Return and keys of the result\<close>

lemma blend_un_wad_unfold:
  assumes "blend_un_wad order h und wad = Inr res"
  obtains isonum h1 nd1 p1 where "reindex h und ''number'' = Inr isonum"
    and "foldl (blend_step und isonum) (h, wad, []) wad = (h1, nd1, p1)"
    and "blend_missing und (order (filter (\<lambda>k. k \<notin> fst ` set nd1) (map fst und))) (h1, nd1, p1)
      = Inr res"
proof (cases "reindex h und ''number''")
  case (Inl e)
  with assms show ?thesis by (simp add: blend_un_wad_def)
next
  case (Inr isonum)
  obtain h1 nd1 p1 where loop: "foldl (blend_step und isonum) (h, wad, []) wad = (h1, nd1, p1)"
    using prod_cases3 by blast
  from assms Inr loop have
    "blend_missing und (order (filter (\<lambda>k. k \<notin> fst ` set nd1) (map fst und))) (h1, nd1, p1)
      = Inr res"
    by (simp add: blend_un_wad_def)
  from that [OF Inr loop this] show ?thesis .
qed


lemma blend_un_wad_keys:
  assumes "blend_un_wad order h und wad = Inr (h', newdata, patched)"
    and "\<forall>xs. set (order xs) = set xs"
  shows "fst ` set und \<subseteq> fst ` set newdata"
proof -
  from assms(1) obtain isonum h1 nd1 p1 where
    missing: "blend_missing und (order (filter (\<lambda>k. k \<notin> fst ` set nd1) (map fst und))) (h1, nd1, p1)
      = Inr (h', newdata, patched)"
    by (rule blend_un_wad_unfold)
  have "set (order (filter (\<lambda>k. k \<notin> fst ` set nd1) (map fst und)))
      = {k \<in> fst ` set und. k \<notin> fst ` set nd1}"
    using assms(2) by simp
  with blend_missing_result(1) [OF missing]
  have "fst ` set newdata = fst ` set nd1 \<union> {k \<in> fst ` set und. k \<notin> fst ` set nd1}"
    by simp
  then show ?thesis by blast
qed

lemma blend_un_wad_distinct:
  assumes "blend_un_wad order h und wad = Inr (h', newdata, patched)"
    and "distinct (map fst wad)"
  shows "distinct (map fst newdata)"
proof -
  from assms(1) obtain isonum h1 nd1 p1 where
    loop: "foldl (blend_step und isonum) (h, wad, []) wad = (h1, nd1, p1)" and
    missing: "blend_missing und (order (filter (\<lambda>k. k \<notin> fst ` set nd1) (map fst und))) (h1, nd1, p1)
      = Inr (h', newdata, patched)"
    by (rule blend_un_wad_unfold)
  from blend_loop_distinct [OF loop assms(2)] have "distinct (map fst nd1)" .
  with blend_missing_result(2) [OF missing] show ?thesis by simp
qed


lemma blend_un_wad_Inr:
  assumes fields: "\<forall>a \<in> snd ` set und. h a ''number'' \<noteq> None \<and> h a ''name'' \<noteq> None"
    and order: "\<forall>xs. set (order xs) = set xs"
  shows "\<exists>res. blend_un_wad order h und wad = Inr res"
proof -
  from fields have "\<forall>a \<in> set (map snd und). h a ''number'' \<noteq> None" by simp
  then obtain isonum where isonum: "reindex h und ''number'' = Inr isonum"
    unfolding reindex_def using reindex_loop_Inr by blast
  obtain h1 nd1 p1 where loop: "foldl (blend_step und isonum) (h, wad, []) wad = (h1, nd1, p1)"
    using prod_cases3 by blast
  have names: "\<forall>a \<in> snd ` set und. h1 a ''name'' \<noteq> None"
  proof
    fix a assume "a \<in> snd ` set und"
    with fields have "''name'' \<in> dom (h a)" by blast
    with blend_loop_dom [OF loop, of a] show "h1 a ''name'' \<noteq> None" by blast
  qed
  have "set (order (filter (\<lambda>k. k \<notin> fst ` set nd1) (map fst und))) \<subseteq> fst ` set und"
    using order by simp
  from blend_missing_Inr [where h = h1 and und = und and nd = nd1 and p = p1
      and ks = "order (filter (\<lambda>k. k \<notin> fst ` set nd1) (map fst und))", OF this names]
  obtain res where
    "blend_missing und (order (filter (\<lambda>k. k \<notin> fst ` set nd1) (map fst und))) (h1, nd1, p1) = Inr res"
    by blast
  with isonum loop have "blend_un_wad order h und wad = Inr res"
    by (simp add: blend_un_wad_def)
  then show ?thesis ..
qed

subsection \<open>Well-formed inputs: the loop invariant\<close>

lemma wf_dataset_lookup:
  assumes "wf_dataset h ds"
  shows "map_of ds k = Some a \<longleftrightarrow> (k, a) \<in> set ds"
  using assms by (simp add: wf_dataset_def)

lemma wf_dataset_fields:
  assumes "wf_dataset h ds" and "(k, a) \<in> set ds"
  shows "h a ''iso3'' = Some k" and "\<exists>n. h a ''number'' = Some n" and "\<exists>nm. h a ''name'' = Some nm"
  using assms by (auto simp: wf_dataset_def)

lemma wf_dataset_inj:
  assumes "wf_dataset h ds" and "(k, a) \<in> set ds" and "(k', a) \<in> set ds"
  shows "k' = k"
  using wf_dataset_fields(1) [OF assms(1,2)] wf_dataset_fields(1) [OF assms(1,3)] by simp

lemma wf_dataset_unique:
  assumes "wf_dataset h ds" and "(k, a) \<in> set ds" and "(k, a') \<in> set ds"
  shows "a' = a"
proof -
  from wf_dataset_lookup [OF assms(1)] assms(2,3)
  have "map_of ds k = Some a" and "map_of ds k = Some a'" by blast+
  then show ?thesis by simp
qed

lemma reindex_lookup:
  assumes "reindex h dataset key = Inr nd" and "map_of nd v = Some a"
  shows "a \<in> snd ` set dataset" and "h a key = Some v"
  using reindex_loop_lookup [of h key "map snd dataset" "[]" nd v a] assms
  by (simp_all add: reindex_def)

lemma reindex_None:
  assumes "reindex h dataset key = Inr nd" and "map_of nd v = None"
  shows "\<forall>a \<in> snd ` set dataset. h a key \<noteq> Some v"
proof -
  from assms(2) have "v \<notin> fst ` set nd" by (simp add: map_of_eq_None_iff)
  with reindex_loop_keys [of h key "map snd dataset" "[]" nd] assms(1)
  show ?thesis by (auto simp: reindex_def)
qed

lemma delete_update_collapse:
  "AList.update k' d (AList.delete k (AList.update k' d nd)) = AList.update k' d (AList.delete k nd)"
proof (cases "k' = k")
  case True
  then show ?thesis by (simp add: delete_update_same)
next
  case False
  then show ?thesis by (simp add: delete_update)
qed

lemma blend_step_outcome:
  assumes wfu: "wf_dataset h0 und"
    and iso: "reindex h0 und ''number'' = Inr isonum"
    and und_same: "\<forall>u \<in> snd ` set und. h u = h0 u"
    and d_same: "h d = h0 d"
    and d_und: "d \<notin> snd ` set und"
    and dn: "h0 d ''number'' = Some dn" and dname: "h0 d ''name'' = Some dname"
    and k_in: "k \<in> fst ` set nd"
    and oc: "oc = item_outcome h0 und isonum k d"
  shows "blend_step und isonum (h, nd, p) (k, d) =
           (h(d := new_record h0 d oc), AList.update (target h0 k oc) d (rekey_delete k oc nd),
            if is_patched h0 d oc then p @ [d] else p)"
proof (cases "map_of und k")
  case (Some u)
  then have ku: "(k, u) \<in> set und" using wfu by (simp add: wf_dataset_lookup)
  then have uin: "u \<in> snd ` set und" by force
  from wf_dataset_fields [OF wfu ku] obtain un unm
    where un: "h0 u ''number'' = Some un" and unm: "h0 u ''name'' = Some unm" by blast
  from uin und_same have hu: "h u = h0 u" by blast
  have oc': "oc = Merged u" using oc Some by (simp add: item_outcome_def)
  have "blend_try und h k d =
      (dn \<noteq> un \<or> dname \<noteq> upper unm,
       Some (h(d := (h0 d)(''number'' \<mapsto> un, ''name'' \<mapsto> upper unm))))"
    using Some hu un unm d_same dn dname by (simp add: blend_try_def Let_def)
  then show ?thesis
    using oc' un unm dn dname by auto
next
  case None
  have tr: "blend_try und h k d = (False, None)"
    using None by (simp add: blend_try_def)
  show ?thesis
  proof (cases "map_of isonum dn")
    case isoNone: None
    have oc': "oc = Untouched" using oc None dn isoNone by (simp add: item_outcome_def)
    have "blend_fallback isonum h nd k d = (False, k, h, nd)"
      using d_same dn isoNone by (simp add: blend_fallback_def Let_def)
    moreover from d_same have "h(d := h0 d) = h" by (metis fun_upd_triv)
    ultimately show ?thesis using tr oc' by simp
  next
    case (Some u)
    have oc': "oc = Rekeyed u" using oc None dn Some by (simp add: item_outcome_def)
    from reindex_lookup [OF iso Some] have uin: "u \<in> snd ` set und" by blast
    then obtain k' where ku: "(k', u) \<in> set und" by force
    from wf_dataset_fields [OF wfu ku] obtain unm
      where uiso: "h0 u ''iso3'' = Some k'" and unm: "h0 u ''name'' = Some unm" by blast
    from uin und_same have hu: "h u = h0 u" by blast
    from uin d_und have ud: "u \<noteq> d" by blast
    have "blend_fallback isonum h nd k d =
        (True, k', h(d := (h0 d)(''iso3'' \<mapsto> k', ''name'' \<mapsto> upper unm)),
         AList.delete k (AList.update k' d nd))"
      using d_same dn Some hu uiso unm ud k_in
      by (simp add: blend_fallback_def dom_update Let_def)
    with tr oc' uiso unm show ?thesis
      by (simp add: delete_update_collapse)
  qed
qed

lemma set_update_cases:
  "x \<in> set (AList.update k v al) \<Longrightarrow> x = (k, v) \<or> x \<in> set al"
  by (induction al) (auto split: if_splits)

lemma update_member: "(k, v) \<in> set (AList.update k v al)"
  by (induction al) auto

lemma rekey_delete_subset: "set (rekey_delete k oc nd) \<subseteq> set nd"
  by (cases oc) (auto simp: AList.delete_eq)

lemma rekey_delete_keys: "fst ` set nd - {k} \<subseteq> fst ` set (rekey_delete k oc nd)"
  by (cases oc) (auto simp: AList.delete_eq image_iff)

lemma rekey_delete_distinct: "distinct (map fst nd) \<Longrightarrow> distinct (map fst (rekey_delete k oc nd))"
  by (cases oc) (simp_all add: distinct_delete)

lemma rekey_delete_gone:
  "(k, a) \<in> set (rekey_delete k oc nd) \<Longrightarrow> target h0 k oc = k"
  by (cases oc) (auto simp: AList.delete_eq)

lemma item_outcome_Rekeyed:
  "item_outcome h0 und isonum k d = Rekeyed u \<Longrightarrow> map_of und k = None"
  by (auto simp: item_outcome_def split: option.splits)

lemma blend_inv_init:
  assumes "wf_dataset h0 wad"
  shows "blend_inv h0 und isonum [] wad (h0, wad, [])"
  using assms by (auto simp: blend_inv_def wf_dataset_def)

lemma blend_invI:
  assumes "\<forall>a. a \<notin> snd ` set seen \<longrightarrow> h a = h0 a"
    and "\<forall>(k, d) \<in> set seen. h d = new_record h0 d (item_outcome h0 und isonum k d)"
    and "p = map snd (filter (\<lambda>(k, d). is_patched h0 d (item_outcome h0 und isonum k d)) seen)"
    and "\<forall>(key, a) \<in> set nd. (key, a) \<in> set rest
            \<or> (\<exists>k. (k, a) \<in> set seen \<and> key = target h0 k (item_outcome h0 und isonum k a))"
    and "\<forall>(k, d) \<in> set seen. target h0 k (item_outcome h0 und isonum k d) \<in> fst ` set und \<longrightarrow>
            target h0 k (item_outcome h0 und isonum k d) \<in> fst ` set nd"
    and "fst ` set rest \<subseteq> fst ` set nd"
    and "distinct (map fst nd)"
  shows "blend_inv h0 und isonum seen rest (h, nd, p)"
  unfolding blend_inv_def using assms by blast

lemma blend_inv_step:
  assumes wfu: "wf_dataset h0 und"
    and wfw: "wf_dataset h0 (seen @ (k, d) # rest)"
    and sep: "snd ` set und \<inter> snd ` set (seen @ (k, d) # rest) = {}"
    and iso: "reindex h0 und ''number'' = Inr isonum"
    and inv: "blend_inv h0 und isonum seen ((k, d) # rest) (h, nd, p)"
  shows "blend_inv h0 und isonum (seen @ [(k, d)]) rest (blend_step und isonum (h, nd, p) (k, d))"
proof -
  define oc where "oc = item_outcome h0 und isonum k d"
  define nd' where "nd' = AList.update (target h0 k oc) d (rekey_delete k oc nd)"
  define p' where "p' = (if is_patched h0 d oc then p @ [d] else p)"
  have kd: "(k, d) \<in> set (seen @ (k, d) # rest)" by simp
  from wfw have dist: "distinct (map fst (seen @ (k, d) # rest))" by (simp add: wf_dataset_def)
  then have k_done: "k \<notin> fst ` set seen" and k_rest: "k \<notin> fst ` set rest" by auto
  have d_done: "d \<notin> snd ` set seen"
  proof
    assume "d \<in> snd ` set seen"
    then obtain k2 where k2: "(k2, d) \<in> set seen" by auto
    then have "(k2, d) \<in> set (seen @ (k, d) # rest)" by simp
    from wf_dataset_inj [OF wfw kd this] k2 k_done show False by force
  qed
  have d_rest: "d \<notin> snd ` set rest"
  proof
    assume "d \<in> snd ` set rest"
    then obtain k2 where k2: "(k2, d) \<in> set rest" by auto
    then have "(k2, d) \<in> set (seen @ (k, d) # rest)" by simp
    from wf_dataset_inj [OF wfw kd this] k2 k_rest show False by force
  qed
  from sep have d_und: "d \<notin> snd ` set und" by auto
  from wf_dataset_fields [OF wfw kd] obtain dn dname
    where dn: "h0 d ''number'' = Some dn" and dname: "h0 d ''name'' = Some dname" by blast
  from inv have i1: "\<forall>a. a \<notin> snd ` set seen \<longrightarrow> h a = h0 a"
    and i2: "\<forall>(k, d) \<in> set seen. h d = new_record h0 d (item_outcome h0 und isonum k d)"
    and i3: "p = map snd (filter (\<lambda>(k, d). is_patched h0 d (item_outcome h0 und isonum k d)) seen)"
    and i4: "\<forall>(key, a) \<in> set nd. (key, a) \<in> set ((k, d) # rest)
            \<or> (\<exists>k. (k, a) \<in> set seen \<and> key = target h0 k (item_outcome h0 und isonum k a))"
    and i5: "\<forall>(k, d) \<in> set seen. target h0 k (item_outcome h0 und isonum k d) \<in> fst ` set und \<longrightarrow>
            target h0 k (item_outcome h0 und isonum k d) \<in> fst ` set nd"
    and i6: "fst ` set ((k, d) # rest) \<subseteq> fst ` set nd"
    and i7: "distinct (map fst nd)"
    by (simp_all add: blend_inv_def)
  from i1 d_done have d_same: "h d = h0 d" by blast
  have und_same: "\<forall>u \<in> snd ` set und. h u = h0 u"
  proof
    fix u assume "u \<in> snd ` set und"
    with sep have "u \<notin> snd ` set seen" by auto
    with i1 show "h u = h0 u" by blast
  qed
  from i6 have k_in: "k \<in> fst ` set nd" by simp
  have step: "blend_step und isonum (h, nd, p) (k, d) = (h(d := new_record h0 d oc), nd', p')"
    unfolding nd'_def p'_def
    by (rule blend_step_outcome [OF wfu iso und_same d_same d_und dn dname k_in oc_def])
  have dist': "distinct (map fst nd')"
    unfolding nd'_def using i7 by (simp add: distinct_update rekey_delete_distinct)
  have j1: "\<forall>a. a \<notin> snd ` set (seen @ [(k, d)]) \<longrightarrow> (h(d := new_record h0 d oc)) a = h0 a"
    using i1 by simp
  have j2: "\<forall>(k2, d2) \<in> set (seen @ [(k, d)]).
      (h(d := new_record h0 d oc)) d2 = new_record h0 d2 (item_outcome h0 und isonum k2 d2)"
  proof (clarify)
    fix k2 d2 assume in2: "(k2, d2) \<in> set (seen @ [(k, d)])"
    show "(h(d := new_record h0 d oc)) d2 = new_record h0 d2 (item_outcome h0 und isonum k2 d2)"
    proof (cases "(k2, d2) = (k, d)")
      case True
      then show ?thesis by (simp add: oc_def)
    next
      case False
      with in2 have in_done: "(k2, d2) \<in> set seen" by auto
      with d_done have "d2 \<noteq> d" by force
      with i2 in_done show ?thesis by auto
    qed
  qed
  have j3: "p' = map snd (filter (\<lambda>(k, d). is_patched h0 d (item_outcome h0 und isonum k d))
      (seen @ [(k, d)]))"
    unfolding p'_def using i3 by (simp add: oc_def)
  have j4: "\<forall>(key, a) \<in> set nd'. (key, a) \<in> set rest
            \<or> (\<exists>k2. (k2, a) \<in> set (seen @ [(k, d)])
                 \<and> key = target h0 k2 (item_outcome h0 und isonum k2 a))"
  proof (clarify)
    fix key a assume mem: "(key, a) \<in> set nd'" and
      no: "\<not> (\<exists>k2. (k2, a) \<in> set (seen @ [(k, d)])
                 \<and> key = target h0 k2 (item_outcome h0 und isonum k2 a))"
    from mem have "(key, a) = (target h0 k oc, d) \<or> (key, a) \<in> set (rekey_delete k oc nd)"
      unfolding nd'_def by (rule set_update_cases)
    moreover from no have "(key, a) \<noteq> (target h0 k oc, d)" by (auto simp: oc_def)
    ultimately have del: "(key, a) \<in> set (rekey_delete k oc nd)" by blast
    with rekey_delete_subset have "(key, a) \<in> set nd" by blast
    with i4 no have "(key, a) \<in> set ((k, d) # rest)" by auto
    moreover have "(key, a) \<noteq> (k, d)"
    proof
      assume eq: "(key, a) = (k, d)"
      with del have "target h0 k oc = k" by (auto dest: rekey_delete_gone)
      with no eq show False by (auto simp: oc_def)
    qed
    ultimately show "(key, a) \<in> set rest" by auto
  qed
  have keys': "fst ` set nd' = insert (target h0 k oc) (fst ` set (rekey_delete k oc nd))"
    unfolding nd'_def by (simp add: dom_update)
  have j5': "target h0 k2 (item_outcome h0 und isonum k2 d2) \<in> fst ` set nd'"
    if in2: "(k2, d2) \<in> set (seen @ [(k, d)])"
      and tu: "target h0 k2 (item_outcome h0 und isonum k2 d2) \<in> fst ` set und" for k2 d2
  proof -
    show ?thesis
    proof (cases "(k2, d2) = (k, d)")
      case True
      then show ?thesis using keys' by (simp add: oc_def)
    next
      case False
      with in2 have "(k2, d2) \<in> set seen" by auto
      with i5 tu have t_in: "target h0 k2 (item_outcome h0 und isonum k2 d2) \<in> fst ` set nd"
        by auto
      show ?thesis
      proof (cases "target h0 k2 (item_outcome h0 und isonum k2 d2) = k")
        case eqk: True
        with tu have "k \<in> fst ` set und" by simp
        then have "map_of und k \<noteq> None" by (simp add: map_of_eq_None_iff)
        then have "rekey_delete k oc nd = nd \<and> target h0 k oc = k"
          by (cases oc) (auto simp: oc_def dest: item_outcome_Rekeyed)
        with keys' eqk show ?thesis by simp
      next
        case neq: False
        with t_in rekey_delete_keys [of nd k oc]
        have "target h0 k2 (item_outcome h0 und isonum k2 d2) \<in> fst ` set (rekey_delete k oc nd)"
          by blast
        with keys' show ?thesis by simp
      qed
    qed
  qed
  have j5: "\<forall>(k2, d2) \<in> set (seen @ [(k, d)]).
      target h0 k2 (item_outcome h0 und isonum k2 d2) \<in> fst ` set und \<longrightarrow>
      target h0 k2 (item_outcome h0 und isonum k2 d2) \<in> fst ` set nd'"
    using j5' by fast
  have j6: "fst ` set rest \<subseteq> fst ` set nd'"
  proof
    fix key assume kr: "key \<in> fst ` set rest"
    with k_rest have "key \<noteq> k" by blast
    moreover from kr i6 have "key \<in> fst ` set nd" by auto
    ultimately have "key \<in> fst ` set (rekey_delete k oc nd)"
      using rekey_delete_keys [of nd k oc] by blast
    with keys' show "key \<in> fst ` set nd'" by simp
  qed
  show ?thesis
    unfolding step by (rule blend_invI [OF j1 j2 j3 j4 j5 j6 dist'])
qed

lemma blend_inv_loop:
  assumes wfu: "wf_dataset h0 und"
    and iso: "reindex h0 und ''number'' = Inr isonum"
  shows "wf_dataset h0 (seen @ rest) \<Longrightarrow> snd ` set und \<inter> snd ` set (seen @ rest) = {} \<Longrightarrow>
     blend_inv h0 und isonum seen rest s \<Longrightarrow>
     blend_inv h0 und isonum (seen @ rest) [] (foldl (blend_step und isonum) s rest)"
proof (induction rest arbitrary: seen s)
  case Nil
  then show ?case by simp
next
  case (Cons x rest)
  obtain k d where x: "x = (k, d)" by (cases x)
  obtain h nd p where s: "s = (h, nd, p)" using prod_cases3 by blast
  from Cons.prems x s have
    "blend_inv h0 und isonum (seen @ [(k, d)]) rest (blend_step und isonum (h, nd, p) (k, d))"
    by (intro blend_inv_step [OF wfu _ _ iso]) simp_all
  moreover from Cons.prems x have "wf_dataset h0 ((seen @ [(k, d)]) @ rest)"
    and "snd ` set und \<inter> snd ` set ((seen @ [(k, d)]) @ rest) = {}"
    by simp_all
  ultimately have "blend_inv h0 und isonum ((seen @ [(k, d)]) @ rest) []
      (foldl (blend_step und isonum) (blend_step und isonum (h, nd, p) (k, d)) rest)"
    by (rule Cons.IH [rotated 2])
  with x s show ?case by simp
qed

lemma blend_loop_final:
  assumes wfu: "wf_dataset h0 und" and wfw: "wf_dataset h0 wad"
    and sep: "snd ` set und \<inter> snd ` set wad = {}"
    and iso: "reindex h0 und ''number'' = Inr isonum"
    and loop: "foldl (blend_step und isonum) (h0, wad, []) wad = (h1, nd1, p1)"
  shows "blend_inv h0 und isonum wad [] (h1, nd1, p1)"
proof -
  have "blend_inv h0 und isonum ([] @ wad) [] (foldl (blend_step und isonum) (h0, wad, []) wad)"
    by (rule blend_inv_loop [OF wfu iso]) (simp_all add: wfw sep blend_inv_init)
  with loop show ?thesis by simp
qed

lemma update_keeps:
  "(key, a) \<in> set al \<Longrightarrow> key \<noteq> k \<Longrightarrow> (key, a) \<in> set (AList.update k v al)"
  by (induction al) auto

lemma blend_missing_frame:
  "blend_missing und ks (h, nd, p) = Inr (h', nd', p') \<Longrightarrow>
     (a \<notin> snd ` set und \<longrightarrow> h' a = h a)
     \<and> (f \<noteq> ''iso2'' \<and> f \<noteq> ''name'' \<longrightarrow> h' a f = h a f)"
proof (induction ks arbitrary: h nd p)
  case Nil
  then show ?case by simp
next
  case (Cons k ks)
  from Cons.prems obtain u where u: "map_of und k = Some u"
    by (cases "map_of und k") simp_all
  from Cons.prems u obtain nm where nm: "h u ''name'' = Some nm"
    by (cases "h u ''name''") simp_all
  from Cons.prems u nm have rec: "blend_missing und ks
      (h(u := (h u)(''iso2'' \<mapsto> '''', ''name'' \<mapsto> upper nm)), AList.update k u nd, p @ [u])
      = Inr (h', nd', p')"
    by simp
  from u have "u \<in> snd ` set und" by (force dest: map_of_SomeD)
  with Cons.IH [OF rec] show ?case by auto
qed

lemma blend_missing_entries:
  "blend_missing und ks (h, nd, p) = Inr (h', nd', p') \<Longrightarrow>
     (\<forall>key a. (key, a) \<in> set nd \<and> key \<notin> set ks \<longrightarrow> (key, a) \<in> set nd')
     \<and> (\<forall>key a. (key, a) \<in> set nd' \<longrightarrow>
            (key, a) \<in> set nd \<or> (key \<in> set ks \<and> map_of und key = Some a))
     \<and> set p' = set p \<union> {u. \<exists>k \<in> set ks. map_of und k = Some u}"
proof (induction ks arbitrary: h nd p)
  case Nil
  then show ?case by simp
next
  case (Cons k ks)
  from Cons.prems obtain u where u: "map_of und k = Some u"
    by (cases "map_of und k") simp_all
  from Cons.prems u obtain nm where nm: "h u ''name'' = Some nm"
    by (cases "h u ''name''") simp_all
  from Cons.prems u nm have rec: "blend_missing und ks
      (h(u := (h u)(''iso2'' \<mapsto> '''', ''name'' \<mapsto> upper nm)), AList.update k u nd, p @ [u])
      = Inr (h', nd', p')"
    by simp
  note ih = Cons.IH [OF rec]
  have a1: "(key, a) \<in> set nd'" if "(key, a) \<in> set nd" "key \<notin> set (k # ks)" for key a
  proof -
    from that have "(key, a) \<in> set (AList.update k u nd)" by (simp add: update_keeps)
    with ih that show ?thesis by simp
  qed
  have a2: "(key, a) \<in> set nd \<or> (key \<in> set (k # ks) \<and> map_of und key = Some a)"
    if "(key, a) \<in> set nd'" for key a
  proof -
    from ih that have "(key, a) \<in> set (AList.update k u nd) \<or> (key \<in> set ks \<and> map_of und key = Some a)"
      by blast
    then show ?thesis
    proof
      assume "(key, a) \<in> set (AList.update k u nd)"
      from set_update_cases [OF this] u show ?thesis by auto
    next
      assume "key \<in> set ks \<and> map_of und key = Some a"
      then show ?thesis by simp
    qed
  qed
  have a3: "set p' = set p \<union> {u. \<exists>k \<in> set (k # ks). map_of und k = Some u}"
    using ih u by auto
  from a1 a2 a3 show ?case by blast
qed

lemma wf_dataset_present:
  assumes "wf_dataset h ds"
  shows "\<forall>a \<in> snd ` set ds. h a ''number'' \<noteq> None \<and> h a ''name'' \<noteq> None"
  using assms by (auto simp: wf_dataset_def)

lemma blend_un_wad_wf:
  assumes wfu: "wf_dataset h und" and wfw: "wf_dataset h wad"
    and sep: "snd ` set und \<inter> snd ` set wad = {}"
    and order: "\<forall>xs. set (order xs) = set xs"
  obtains isonum h1 nd1 p1 ms h' newdata patched where
    "reindex h und ''number'' = Inr isonum"
    and "blend_inv h und isonum wad [] (h1, nd1, p1)"
    and "set ms = {k \<in> fst ` set und. k \<notin> fst ` set nd1}"
    and "blend_missing und ms (h1, nd1, p1) = Inr (h', newdata, patched)"
    and "blend_un_wad order h und wad = Inr (h', newdata, patched)"
proof -
  from blend_un_wad_Inr [OF wf_dataset_present [OF wfu] order, of wad]
  obtain res where res: "blend_un_wad order h und wad = Inr res" by blast
  obtain h' newdata patched where r: "res = (h', newdata, patched)" using prod_cases3 by blast
  from res obtain isonum h1 nd1 p1 where iso: "reindex h und ''number'' = Inr isonum"
    and loop: "foldl (blend_step und isonum) (h, wad, []) wad = (h1, nd1, p1)"
    and missing: "blend_missing und (order (filter (\<lambda>k. k \<notin> fst ` set nd1) (map fst und)))
        (h1, nd1, p1) = Inr res"
    by (rule blend_un_wad_unfold)
  have inv: "blend_inv h und isonum wad [] (h1, nd1, p1)"
    by (rule blend_loop_final [OF wfu wfw sep iso loop])
  have ms: "set (order (filter (\<lambda>k. k \<notin> fst ` set nd1) (map fst und)))
      = {k \<in> fst ` set und. k \<notin> fst ` set nd1}"
    using order by simp
  from that [OF iso inv ms] missing res r show ?thesis by simp
qed

lemma new_record_iso3:
  assumes "wf_dataset h0 wad" and "(k, a) \<in> set wad"
  shows "new_record h0 a (item_outcome h0 und isonum k a) ''iso3''
           = Some (target h0 k (item_outcome h0 und isonum k a))"
  using wf_dataset_fields(1) [OF assms]
  by (cases "item_outcome h0 und isonum k a") simp_all

lemmas blend_eval =
  blend_un_wad_def reindex_def blend_try_def blend_fallback_def upper_def upper_char_def Let_def

subsection \<open>Keys and ISO3 fields\<close>

text \<open>
  C5. For well-formed datasets that share no record object (the adapters build every
  record afresh), \<open>blend_un_wad\<close> returns, and in the mapping it returns every record
  has its \<open>iso3\<close> field equal to the key it is stored under; the keys are distinct,
  and hence so are the \<open>iso3\<close> fields of the entries.
\<close>

theorem blend_iso3_key:
  assumes wfu: "wf_dataset h und" and wfw: "wf_dataset h wad"
    and sep: "snd ` set und \<inter> snd ` set wad = {}"
    and order: "\<forall>xs. set (order xs) = set xs"
  shows "\<exists>h' newdata patched. blend_un_wad order h und wad = Inr (h', newdata, patched)
           \<and> (\<forall>(k, a) \<in> set newdata. h' a ''iso3'' = Some k)
           \<and> distinct (map fst newdata)
           \<and> distinct (map (\<lambda>(k, a). h' a ''iso3'') newdata)"
proof -
  from wfu wfw sep order obtain isonum h1 nd1 p1 ms h' newdata patched where
    iso: "reindex h und ''number'' = Inr isonum"
    and inv: "blend_inv h und isonum wad [] (h1, nd1, p1)"
    and ms: "set ms = {k \<in> fst ` set und. k \<notin> fst ` set nd1}"
    and missing: "blend_missing und ms (h1, nd1, p1) = Inr (h', newdata, patched)"
    and run: "blend_un_wad order h und wad = Inr (h', newdata, patched)"
    by (rule blend_un_wad_wf)
  from inv have i1: "\<forall>a. a \<notin> snd ` set wad \<longrightarrow> h1 a = h a"
    and i2: "\<forall>(k, d) \<in> set wad. h1 d = new_record h d (item_outcome h und isonum k d)"
    and i4: "\<forall>(key, a) \<in> set nd1.
        (\<exists>k. (k, a) \<in> set wad \<and> key = target h k (item_outcome h und isonum k a))"
    by (simp_all add: blend_inv_def)
  have key: "h' a ''iso3'' = Some k" if ka: "(k, a) \<in> set newdata" for k a
  proof -
    from blend_missing_frame [OF missing, of a "''iso3''"]
    have same: "h' a ''iso3'' = h1 a ''iso3''" by simp
    from blend_missing_entries [OF missing] ka
    have "(k, a) \<in> set nd1 \<or> (k \<in> set ms \<and> map_of und k = Some a)" by blast
    then show ?thesis
    proof
      assume "(k, a) \<in> set nd1"
      with i4 obtain k0 where k0: "(k0, a) \<in> set wad"
        and t: "k = target h k0 (item_outcome h und isonum k0 a)" by auto
      from i2 k0 have "h1 a = new_record h a (item_outcome h und isonum k0 a)" by auto
      with new_record_iso3 [OF wfw k0, of und isonum] t same show ?thesis by simp
    next
      assume "k \<in> set ms \<and> map_of und k = Some a"
      then have ku: "(k, a) \<in> set und" using wfu by (simp add: wf_dataset_lookup)
      then have "a \<in> snd ` set und" by force
      with sep have "a \<notin> snd ` set wad" by auto
      with i1 have "h1 a = h a" by blast
      with wf_dataset_fields(1) [OF wfu ku] same show ?thesis by simp
    qed
  qed
  from wfw have "distinct (map fst wad)" by (simp add: wf_dataset_def)
  from blend_un_wad_distinct [OF run this] have d: "distinct (map fst newdata)" .
  have "map (\<lambda>(k, a). h' a ''iso3'') newdata = map (\<lambda>x. Some (fst x)) newdata"
    using key by (intro map_cong) auto
  also have "\<dots> = map Some (map fst newdata)" by simp
  finally have eq: "map (\<lambda>(k, a). h' a ''iso3'') newdata = map Some (map fst newdata)" .
  have "distinct (map Some (map fst newdata))"
    using d by (subst distinct_map) simp
  then have "distinct (map (\<lambda>(k, a). h' a ''iso3'') newdata)" by (simp only: eq)
  with run key d show ?thesis by blast
qed

text \<open>
  A run with a merged record (FRA), a record the primary source lacks (ATA), a re-keyed
  record (ROM, stored under ROU afterwards) and a primary record the broad source
  lacks (SSD).
\<close>

theorem blend_iso3_key_witness:
  "wf_dataset blend_heap [(''FRA'', 0), (''SSD'', 3), (''ROU'', 4)]
   \<and> wf_dataset blend_heap [(''FRA'', 1), (''ATA'', 2), (''ROM'', 5)]
   \<and> (\<exists>h' patched.
         blend_un_wad (\<lambda>xs. xs) blend_heap [(''FRA'', 0), (''SSD'', 3), (''ROU'', 4)]
           [(''FRA'', 1), (''ATA'', 2), (''ROM'', 5)]
         = Inr (h', [(''FRA'', 1), (''ATA'', 2), (''ROU'', 5), (''SSD'', 3)], patched)
         \<and> h' 1 ''iso3'' = Some ''FRA'' \<and> h' 2 ''iso3'' = Some ''ATA''
         \<and> h' 5 ''iso3'' = Some ''ROU'' \<and> h' 3 ''iso3'' = Some ''SSD'')"
proof -
  have wfu: "wf_dataset blend_heap [(''FRA'', 0), (''SSD'', 3), (''ROU'', 4)]"
    and wfw: "wf_dataset blend_heap [(''FRA'', 1), (''ATA'', 2), (''ROM'', 5)]"
    by (simp_all add: wf_dataset_def blend_heap_def)
  have sep: "snd ` set [(''FRA'', 0 :: addr), (''SSD'', 3), (''ROU'', 4)]
      \<inter> snd ` set [(''FRA'', 1), (''ATA'', 2), (''ROM'', 5)] = {}"
    by simp
  have order: "\<forall>xs :: string list. set ((\<lambda>xs. xs) xs) = set xs" by simp
  from blend_iso3_key [OF wfu wfw sep order] obtain h' newdata patched where
    run: "blend_un_wad (\<lambda>xs. xs) blend_heap [(''FRA'', 0), (''SSD'', 3), (''ROU'', 4)]
           [(''FRA'', 1), (''ATA'', 2), (''ROM'', 5)] = Inr (h', newdata, patched)"
    and key: "\<forall>(k, a) \<in> set newdata. h' a ''iso3'' = Some k"
    by blast
  have "case blend_un_wad (\<lambda>xs. xs) blend_heap [(''FRA'', 0), (''SSD'', 3), (''ROU'', 4)]
           [(''FRA'', 1), (''ATA'', 2), (''ROM'', 5)] of
         Inl e \<Rightarrow> False
       | Inr (h', nd, p) \<Rightarrow> nd = [(''FRA'', 1), (''ATA'', 2), (''ROU'', 5), (''SSD'', 3)]"
    by (simp add: blend_eval blend_heap_def)
  with run have nd: "newdata = [(''FRA'', 1), (''ATA'', 2), (''ROU'', 5), (''SSD'', 3)]" by simp
  with key have "h' 1 ''iso3'' = Some ''FRA'' \<and> h' 2 ''iso3'' = Some ''ATA''
         \<and> h' 5 ''iso3'' = Some ''ROU'' \<and> h' 3 ''iso3'' = Some ''SSD''" by simp
  with wfu wfw run nd show ?thesis by blast
qed

subsection \<open>Completeness\<close>

lemma blend_missing_heap:
  "blend_missing und ks (h, nd, p) = Inr (h', nd', p') \<Longrightarrow>
     h' a = (if \<exists>k \<in> set ks. map_of und k = Some a
             then (h a)(''iso2'' \<mapsto> '''', ''name'' \<mapsto> upper (the (h a ''name'')))
             else h a)"
proof (induction ks arbitrary: h nd p)
  case Nil
  then show ?case by simp
next
  case (Cons k ks)
  from Cons.prems obtain u where u: "map_of und k = Some u"
    by (cases "map_of und k") simp_all
  from Cons.prems u obtain nm where nm: "h u ''name'' = Some nm"
    by (cases "h u ''name''") simp_all
  define h2 where "h2 = h(u := (h u)(''iso2'' \<mapsto> '''', ''name'' \<mapsto> upper nm))"
  from Cons.prems u nm have rec: "blend_missing und ks (h2, AList.update k u nd, p @ [u])
      = Inr (h', nd', p')"
    by (simp add: h2_def)
  note ih = Cons.IH [OF rec]
  show ?case
  proof (cases "a = u")
    case True
    have eq: "(h2 u)(''iso2'' \<mapsto> '''', ''name'' \<mapsto> upper (the (h2 u ''name''))) = h2 u"
      by (auto simp: h2_def upper_idem fun_eq_iff)
    have "h' u = h2 u" using ih [unfolded True] by (simp only: eq if_cancel)
    with True u nm show ?thesis by (auto simp: h2_def)
  next
    case False
    then have "h2 a = h a" by (simp add: h2_def)
    with ih False u show ?thesis by auto
  qed
qed

text \<open>
  C3. Take well-formed datasets that share no record object, the primary names within
  the range of \<open>upper\<close>. Then \<open>blend_un_wad\<close> returns, and every ISO3 key \<open>k\<close> of
  the primary dataset, of the record \<open>u\<close>, is a key of the blended mapping. The
  record \<open>x\<close> stored under \<open>k\<close> is one of three. Merged: \<open>x\<close> is the broad record
  of the same key, with the number of \<open>u\<close> and the name of \<open>u\<close> in upper case
  written onto it. Adopted by the numeric-code fallback: \<open>x\<close> is a broad record whose
  own key is no primary key and whose number is the number of \<open>u\<close>, with its \<open>iso3\<close>
  set to \<open>k\<close> and the name of \<open>u\<close> in upper case. Inserted: \<open>k\<close> is no broad key
  and \<open>x\<close> is \<open>u\<close> itself, as it was but for \<open>iso2\<close>, which is the empty string,
  and its name, which is in upper case; it is in the patched list. (That every primary
  key is a key of the result holds whenever \<open>blend_un_wad\<close> returns, with nothing
  assumed of the datasets: lemma \<open>blend_un_wad_keys\<close>.)
\<close>

theorem blend_complete:
  assumes wfu: "wf_dataset h und" and wfw: "wf_dataset h wad"
    and sep: "snd ` set und \<inter> snd ` set wad = {}"
    and order: "\<forall>xs. set (order xs) = set xs"
    and range: "\<forall>u \<in> snd ` set und. upper_in_range (the (h u ''name''))"
  shows "\<exists>h' newdata patched. blend_un_wad order h und wad = Inr (h', newdata, patched)
           \<and> (\<forall>(k, u) \<in> set und. \<exists>x. map_of newdata k = Some x
                 \<and> ((k, x) \<in> set wad
                      \<and> h' x = (h x)(''number'' \<mapsto> the (h u ''number''),
                                     ''name'' \<mapsto> upper (the (h u ''name'')))
                    \<or> (\<exists>k0. (k0, x) \<in> set wad \<and> k0 \<notin> fst ` set und)
                      \<and> h x ''number'' = h u ''number''
                      \<and> h' x = (h x)(''iso3'' \<mapsto> k, ''name'' \<mapsto> upper (the (h u ''name'')))
                    \<or> x = u \<and> k \<notin> fst ` set wad
                      \<and> h' u = (h u)(''iso2'' \<mapsto> '''', ''name'' \<mapsto> upper (the (h u ''name'')))
                      \<and> u \<in> set patched))"
proof -
  from wfu wfw sep order obtain isonum h1 nd1 p1 ms h' newdata patched where
    iso: "reindex h und ''number'' = Inr isonum"
    and inv: "blend_inv h und isonum wad [] (h1, nd1, p1)"
    and ms: "set ms = {k \<in> fst ` set und. k \<notin> fst ` set nd1}"
    and missing: "blend_missing und ms (h1, nd1, p1) = Inr (h', newdata, patched)"
    and run: "blend_un_wad order h und wad = Inr (h', newdata, patched)"
    by (rule blend_un_wad_wf)
  from inv have i1: "\<forall>a. a \<notin> snd ` set wad \<longrightarrow> h1 a = h a"
    and i2: "\<forall>(k, d) \<in> set wad. h1 d = new_record h d (item_outcome h und isonum k d)"
    and i4: "\<forall>(key, a) \<in> set nd1.
        (\<exists>k. (k, a) \<in> set wad \<and> key = target h k (item_outcome h und isonum k a))"
    and i5: "\<forall>(k, d) \<in> set wad. target h k (item_outcome h und isonum k d) \<in> fst ` set und \<longrightarrow>
            target h k (item_outcome h und isonum k d) \<in> fst ` set nd1"
    by (simp_all add: blend_inv_def)
  from wfw have "distinct (map fst wad)" by (simp add: wf_dataset_def)
  from blend_un_wad_distinct [OF run this] have dn: "distinct (map fst newdata)" .
  have wad_same: "h' a = h1 a" if "a \<in> snd ` set wad" for a
  proof -
    from that sep have "a \<notin> snd ` set und" by auto
    with blend_missing_frame [OF missing, of a] show ?thesis by simp
  qed
  have entry: "\<exists>x. map_of newdata k = Some x
       \<and> ((k, x) \<in> set wad
            \<and> h' x = (h x)(''number'' \<mapsto> the (h u ''number''),
                           ''name'' \<mapsto> upper (the (h u ''name'')))
          \<or> (\<exists>k0. (k0, x) \<in> set wad \<and> k0 \<notin> fst ` set und)
            \<and> h x ''number'' = h u ''number''
            \<and> h' x = (h x)(''iso3'' \<mapsto> k, ''name'' \<mapsto> upper (the (h u ''name'')))
          \<or> x = u \<and> k \<notin> fst ` set wad
            \<and> h' u = (h u)(''iso2'' \<mapsto> '''', ''name'' \<mapsto> upper (the (h u ''name'')))
            \<and> u \<in> set patched)"
    if ku: "(k, u) \<in> set und" for k u
  proof (cases "k \<in> fst ` set nd1")
    case True
    then obtain x where x: "(k, x) \<in> set nd1" by auto
    with i4 obtain k2 where k2: "(k2, x) \<in> set wad"
      and t: "target h k2 (item_outcome h und isonum k2 x) = k" by force
    from x ms have "k \<notin> set ms" by force
    with blend_missing_entries [OF missing] x have "(k, x) \<in> set newdata" by blast
    with dn have m: "map_of newdata k = Some x" by simp
    from k2 have "x \<in> snd ` set wad" by force
    then have "h' x = h1 x" by (rule wad_same)
    with i2 k2 have hx: "h' x = new_record h x (item_outcome h und isonum k2 x)" by auto
    show ?thesis
    proof (cases "item_outcome h und isonum k2 x")
      case (Merged u2)
      with t have kk: "k2 = k" by simp
      moreover from Merged have "map_of und k2 = Some u2"
        by (auto simp: item_outcome_def split: option.splits)
      ultimately have "(k, u2) \<in> set und" using wfu by (simp add: wf_dataset_lookup)
      from wf_dataset_unique [OF wfu ku this] have "u2 = u" .
      with Merged hx have "h' x = (h x)(''number'' \<mapsto> the (h u ''number''),
          ''name'' \<mapsto> upper (the (h u ''name'')))" by simp
      with m k2 kk show ?thesis by blast
    next
      case (Rekeyed u2)
      then obtain dn where xn: "h x ''number'' = Some dn" and m2: "map_of isonum dn = Some u2"
        and k2_none: "map_of und k2 = None"
        by (auto simp: item_outcome_def split: option.splits)
      from reindex_lookup [OF iso m2] have u2in: "u2 \<in> snd ` set und"
        and u2n: "h u2 ''number'' = Some dn" by simp_all
      from u2in obtain k'' where k'': "(k'', u2) \<in> set und" by force
      from wf_dataset_fields(1) [OF wfu k''] t Rekeyed have "k'' = k" by simp
      with k'' have "(k, u2) \<in> set und" by simp
      from wf_dataset_unique [OF wfu ku this] have uu: "u2 = u" .
      from wf_dataset_fields(1) [OF wfu ku] have "h u ''iso3'' = Some k" .
      with Rekeyed hx uu have "h' x = (h x)(''iso3'' \<mapsto> k, ''name'' \<mapsto> upper (the (h u ''name'')))"
        by simp
      moreover from k2_none have "k2 \<notin> fst ` set und" by (simp add: map_of_eq_None_iff)
      moreover from xn u2n uu have "h x ''number'' = h u ''number''" by simp
      ultimately show ?thesis using m k2 by blast
    next
      case Untouched
      with t have "k2 = k" by simp
      moreover from Untouched have "map_of und k2 = None"
        by (auto simp: item_outcome_def split: option.splits)
      ultimately show ?thesis using wf_dataset_lookup [OF wfu, of k u] ku by simp
    qed
  next
    case False
    from ku have kin: "k \<in> fst ` set und" by force
    with False ms have kms: "k \<in> set ms" by simp
    from ku wfu have mu: "map_of und k = Some u" by (simp add: wf_dataset_lookup)
    from blend_missing_result(1) [OF missing] kms have "k \<in> fst ` set newdata" by simp
    then obtain x where x: "(k, x) \<in> set newdata" by auto
    with blend_missing_entries [OF missing] False mu have "x = u" by force
    with x dn have m: "map_of newdata k = Some u" by simp
    have k_wad: "k \<notin> fst ` set wad"
    proof
      assume "k \<in> fst ` set wad"
      then obtain d where d: "(k, d) \<in> set wad" by auto
      from mu have "item_outcome h und isonum k d = Merged u" by (simp add: item_outcome_def)
      with i5 d kin have "k \<in> fst ` set nd1" by force
      with False show False by simp
    qed
    from ku have "u \<in> snd ` set und" by force
    with sep have "u \<notin> snd ` set wad" by auto
    with i1 have "h1 u = h u" by blast
    with blend_missing_heap [OF missing, of u] kms mu
    have hu: "h' u = (h u)(''iso2'' \<mapsto> '''', ''name'' \<mapsto> upper (the (h u ''name'')))"
      by auto
    from blend_missing_entries [OF missing] kms mu have "u \<in> set patched" by blast
    with m k_wad hu show ?thesis by blast
  qed
  from entry have "\<forall>(k, u) \<in> set und. \<exists>x. map_of newdata k = Some x
       \<and> ((k, x) \<in> set wad
            \<and> h' x = (h x)(''number'' \<mapsto> the (h u ''number''),
                           ''name'' \<mapsto> upper (the (h u ''name'')))
          \<or> (\<exists>k0. (k0, x) \<in> set wad \<and> k0 \<notin> fst ` set und)
            \<and> h x ''number'' = h u ''number''
            \<and> h' x = (h x)(''iso3'' \<mapsto> k, ''name'' \<mapsto> upper (the (h u ''name'')))
          \<or> x = u \<and> k \<notin> fst ` set wad
            \<and> h' u = (h u)(''iso2'' \<mapsto> '''', ''name'' \<mapsto> upper (the (h u ''name'')))
            \<and> u \<in> set patched)"
    by blast
  with run show ?thesis by blast
qed

text \<open>
  A run with the three cases: FRA is merged, ROU is adopted by the broad record stored
  under ROM, SSD is inserted.
\<close>

theorem blend_complete_witness:
  "wf_dataset blend_heap [(''FRA'', 0), (''SSD'', 3), (''ROU'', 4)]
   \<and> wf_dataset blend_heap [(''FRA'', 1), (''ATA'', 2), (''ROM'', 5)]
   \<and> (\<exists>h' patched.
         blend_un_wad (\<lambda>xs. xs) blend_heap [(''FRA'', 0), (''SSD'', 3), (''ROU'', 4)]
           [(''FRA'', 1), (''ATA'', 2), (''ROM'', 5)]
         = Inr (h', [(''FRA'', 1), (''ATA'', 2), (''ROU'', 5), (''SSD'', 3)], patched)
         \<and> h' 1 = (blend_heap 1)(''number'' \<mapsto> ''250'', ''name'' \<mapsto> ''FRANCE'')
         \<and> h' 5 = (blend_heap 5)(''iso3'' \<mapsto> ''ROU'', ''name'' \<mapsto> ''ROMANIA'')
         \<and> h' 3 = (blend_heap 3)(''iso2'' \<mapsto> '''', ''name'' \<mapsto> ''SOUTH SUDAN'')
         \<and> 3 \<in> set patched)"
proof -
  have wfu: "wf_dataset blend_heap [(''FRA'', 0), (''SSD'', 3), (''ROU'', 4)]"
    and wfw: "wf_dataset blend_heap [(''FRA'', 1), (''ATA'', 2), (''ROM'', 5)]"
    by (simp_all add: wf_dataset_def blend_heap_def)
  have sep: "snd ` set [(''FRA'', 0 :: addr), (''SSD'', 3), (''ROU'', 4)]
      \<inter> snd ` set [(''FRA'', 1), (''ATA'', 2), (''ROM'', 5)] = {}"
    by simp
  have order: "\<forall>xs :: string list. set ((\<lambda>xs. xs) xs) = set xs" by simp
  have range: "\<forall>u \<in> snd ` set [(''FRA'', 0 :: addr), (''SSD'', 3), (''ROU'', 4)].
      upper_in_range (the (blend_heap u ''name''))"
    by (simp add: blend_heap_def upper_in_range_def)
  have up: "upper (the (blend_heap 0 ''name'')) = ''FRANCE''"
    "upper (the (blend_heap 3 ''name'')) = ''SOUTH SUDAN''"
    "upper (the (blend_heap 4 ''name'')) = ''ROMANIA''"
    by (simp_all add: blend_heap_def upper_def upper_char_def)
  have num: "the (blend_heap 0 ''number'') = ''250''" by (simp add: blend_heap_def)
  from blend_complete [OF wfu wfw sep order range] obtain h' newdata patched where
    run: "blend_un_wad (\<lambda>xs. xs) blend_heap [(''FRA'', 0), (''SSD'', 3), (''ROU'', 4)]
           [(''FRA'', 1), (''ATA'', 2), (''ROM'', 5)] = Inr (h', newdata, patched)"
    and entry: "\<forall>(k, u) \<in> set [(''FRA'', 0 :: addr), (''SSD'', 3), (''ROU'', 4)].
       \<exists>x. map_of newdata k = Some x
       \<and> ((k, x) \<in> set [(''FRA'', 1), (''ATA'', 2), (''ROM'', 5)]
            \<and> h' x = (blend_heap x)(''number'' \<mapsto> the (blend_heap u ''number''),
                           ''name'' \<mapsto> upper (the (blend_heap u ''name'')))
          \<or> (\<exists>k0. (k0, x) \<in> set [(''FRA'', 1), (''ATA'', 2), (''ROM'', 5)]
                 \<and> k0 \<notin> fst ` set [(''FRA'', 0 :: addr), (''SSD'', 3), (''ROU'', 4)])
            \<and> blend_heap x ''number'' = blend_heap u ''number''
            \<and> h' x = (blend_heap x)(''iso3'' \<mapsto> k, ''name'' \<mapsto> upper (the (blend_heap u ''name'')))
          \<or> x = u \<and> k \<notin> fst ` set [(''FRA'', 1 :: addr), (''ATA'', 2), (''ROM'', 5)]
            \<and> h' u = (blend_heap u)(''iso2'' \<mapsto> '''', ''name'' \<mapsto> upper (the (blend_heap u ''name'')))
            \<and> u \<in> set patched)"
    by blast
  have "case blend_un_wad (\<lambda>xs. xs) blend_heap [(''FRA'', 0), (''SSD'', 3), (''ROU'', 4)]
           [(''FRA'', 1), (''ATA'', 2), (''ROM'', 5)] of
         Inl e \<Rightarrow> False
       | Inr (h', nd, p) \<Rightarrow> nd = [(''FRA'', 1), (''ATA'', 2), (''ROU'', 5), (''SSD'', 3)]"
    by (simp add: blend_eval blend_heap_def)
  with run have nd: "newdata = [(''FRA'', 1), (''ATA'', 2), (''ROU'', 5), (''SSD'', 3)]" by simp
  from entry have "h' 1 = (blend_heap 1)(''number'' \<mapsto> ''250'', ''name'' \<mapsto> ''FRANCE'')"
    unfolding nd by (simp add: up num)
  moreover from entry have "h' 5 = (blend_heap 5)(''iso3'' \<mapsto> ''ROU'', ''name'' \<mapsto> ''ROMANIA'')"
    unfolding nd by (simp add: up)
  moreover from entry have "h' 3 = (blend_heap 3)(''iso2'' \<mapsto> '''', ''name'' \<mapsto> ''SOUTH SUDAN'')
      \<and> 3 \<in> set patched"
    unfolding nd by (simp add: up)
  ultimately show ?thesis using wfu wfw run nd by blast
qed

subsection \<open>Conflict resolution\<close>

lemma map_of_is_entry:
  assumes "distinct (map fst al)" and "(k, v) \<in> set al"
  shows "map_of al k = Some v"
  using assms by simp

lemma new_record_primary:
  assumes wfu: "wf_dataset h0 und" and iso: "reindex h0 und ''number'' = Inr isonum"
    and ku: "(k, u) \<in> set und"
    and t: "target h0 k2 (item_outcome h0 und isonum k2 x) = k"
  shows "new_record h0 x (item_outcome h0 und isonum k2 x) ''number'' = h0 u ''number''
       \<and> new_record h0 x (item_outcome h0 und isonum k2 x) ''name''
           = Some (upper (the (h0 u ''name'')))"
proof (cases "item_outcome h0 und isonum k2 x")
  case (Merged u2)
  with t have "k2 = k" by simp
  moreover from Merged have "map_of und k2 = Some u2"
    by (auto simp: item_outcome_def split: option.splits)
  ultimately have "(k, u2) \<in> set und" using wfu by (simp add: wf_dataset_lookup)
  from wf_dataset_unique [OF wfu ku this] have "u2 = u" .
  with Merged wf_dataset_fields(2) [OF wfu ku] show ?thesis by auto
next
  case (Rekeyed u2)
  then obtain dn where dn: "h0 x ''number'' = Some dn" and m: "map_of isonum dn = Some u2"
    by (auto simp: item_outcome_def split: option.splits)
  from reindex_lookup [OF iso m] have u2in: "u2 \<in> snd ` set und" and u2n: "h0 u2 ''number'' = Some dn"
    by simp_all
  from u2in obtain k'' where k'': "(k'', u2) \<in> set und" by force
  from wf_dataset_fields(1) [OF wfu k''] t Rekeyed have "k'' = k" by simp
  with k'' have "(k, u2) \<in> set und" by simp
  from wf_dataset_unique [OF wfu ku this] have "u2 = u" .
  with Rekeyed dn u2n show ?thesis by simp
next
  case Untouched
  with t have "k2 = k" by simp
  moreover from Untouched have "map_of und k2 = None"
    by (auto simp: item_outcome_def split: option.splits)
  ultimately show ?thesis using wf_dataset_lookup [OF wfu, of k u] ku by simp
qed

text \<open>
  C1. Take well-formed datasets that share no record object, and a broad record \<open>b\<close>
  whose key \<open>k\<close> is also a primary key, of the record \<open>u\<close>, whose name is within
  the range of \<open>upper\<close>. Then \<open>blend_un_wad\<close>
  returns; the entry of the result under \<open>k\<close> has the number of \<open>u\<close> and the name of
  \<open>u\<close> in upper case; so has \<open>b\<close> itself, whose own values are overwritten; and \<open>b\<close>
  is in the patched list exactly when its number or its name differed from those
  values before the call.
\<close>

theorem blend_merge:
  assumes wfu: "wf_dataset h und" and wfw: "wf_dataset h wad"
    and sep: "snd ` set und \<inter> snd ` set wad = {}"
    and order: "\<forall>xs. set (order xs) = set xs"
    and kb: "(k, b) \<in> set wad" and ku: "(k, u) \<in> set und"
    and range: "upper_in_range (the (h u ''name''))"
  shows "\<exists>h' newdata patched. blend_un_wad order h und wad = Inr (h', newdata, patched)
           \<and> (\<exists>x. map_of newdata k = Some x
                 \<and> h' x ''number'' = h u ''number''
                 \<and> h' x ''name'' = Some (upper (the (h u ''name''))))
           \<and> h' b ''number'' = h u ''number''
           \<and> h' b ''name'' = Some (upper (the (h u ''name'')))
           \<and> (b \<in> set patched \<longleftrightarrow>
                 h b ''number'' \<noteq> h u ''number''
                 \<or> h b ''name'' \<noteq> Some (upper (the (h u ''name''))))"
proof -
  from wfu wfw sep order obtain isonum h1 nd1 p1 ms h' newdata patched where
    iso: "reindex h und ''number'' = Inr isonum"
    and inv: "blend_inv h und isonum wad [] (h1, nd1, p1)"
    and ms: "set ms = {k \<in> fst ` set und. k \<notin> fst ` set nd1}"
    and missing: "blend_missing und ms (h1, nd1, p1) = Inr (h', newdata, patched)"
    and run: "blend_un_wad order h und wad = Inr (h', newdata, patched)"
    by (rule blend_un_wad_wf)
  from inv have i2: "\<forall>(k, d) \<in> set wad. h1 d = new_record h d (item_outcome h und isonum k d)"
    and i3: "p1 = map snd (filter (\<lambda>(k, d). is_patched h d (item_outcome h und isonum k d)) wad)"
    and i4: "\<forall>(key, a) \<in> set nd1.
        (\<exists>k. (k, a) \<in> set wad \<and> key = target h k (item_outcome h und isonum k a))"
    and i5: "\<forall>(k, d) \<in> set wad. target h k (item_outcome h und isonum k d) \<in> fst ` set und \<longrightarrow>
            target h k (item_outcome h und isonum k d) \<in> fst ` set nd1"
    by (simp_all add: blend_inv_def)
  from ku wfu have mu: "map_of und k = Some u" by (simp add: wf_dataset_lookup)
  then have oc: "item_outcome h und isonum k b = Merged u" by (simp add: item_outcome_def)
  have wad_same: "h' a = h1 a" if "a \<in> snd ` set wad" for a
  proof -
    from that sep have "a \<notin> snd ` set und" by auto
    with blend_missing_frame [OF missing, of a] show ?thesis by simp
  qed
  from kb have bw: "b \<in> snd ` set wad" by force
  \<comment> \<open>the entry stored under k\<close>
  from ku have "k \<in> fst ` set und" by force
  with i5 kb oc have "k \<in> fst ` set nd1" by force
  then obtain x where x: "(k, x) \<in> set nd1" by auto
  with i4 obtain k2 where k2: "(k2, x) \<in> set wad"
    and t: "target h k2 (item_outcome h und isonum k2 x) = k" by force
  from i2 k2 have "h1 x = new_record h x (item_outcome h und isonum k2 x)" by auto
  with new_record_primary [OF wfu iso ku t]
  have "h1 x ''number'' = h u ''number'' \<and> h1 x ''name'' = Some (upper (the (h u ''name'')))"
    by simp
  moreover from k2 have "x \<in> snd ` set wad" by force
  ultimately have x_fields:
    "h' x ''number'' = h u ''number'' \<and> h' x ''name'' = Some (upper (the (h u ''name'')))"
    by (simp add: wad_same)
  from x ms have "k \<notin> set ms" by force
  with blend_missing_entries [OF missing] x have "(k, x) \<in> set newdata" by blast
  moreover from wfw have "distinct (map fst wad)" by (simp add: wf_dataset_def)
  from blend_un_wad_distinct [OF run this] have "distinct (map fst newdata)" .
  ultimately have entry: "map_of newdata k = Some x" by simp
  \<comment> \<open>the broad record itself\<close>
  from i2 kb oc have "h1 b = new_record h b (Merged u)" by force
  with wf_dataset_fields(2) [OF wfu ku] bw
  have b_fields:
    "h' b ''number'' = h u ''number'' \<and> h' b ''name'' = Some (upper (the (h u ''name'')))"
    by (auto simp: wad_same)
  \<comment> \<open>the patched list\<close>
  have "b \<in> set p1 \<longleftrightarrow> is_patched h b (Merged u)"
  proof
    assume "b \<in> set p1"
    with i3 obtain k3 where k3: "(k3, b) \<in> set wad"
      and p: "is_patched h b (item_outcome h und isonum k3 b)" by auto
    from wf_dataset_inj [OF wfw kb k3] have "k3 = k" .
    with p oc show "is_patched h b (Merged u)" by simp
  next
    assume "is_patched h b (Merged u)"
    with oc kb i3 show "b \<in> set p1" by force
  qed
  moreover have "b \<in> set patched \<longleftrightarrow> b \<in> set p1"
  proof -
    from bw sep have "b \<notin> snd ` set und" by auto
    then have "\<not> (\<exists>k \<in> set ms. map_of und k = Some b)" by (force dest: map_of_SomeD)
    with blend_missing_entries [OF missing] show ?thesis by auto
  qed
  ultimately have pat: "b \<in> set patched \<longleftrightarrow>
      h b ''number'' \<noteq> h u ''number'' \<or> h b ''name'' \<noteq> Some (upper (the (h u ''name'')))"
    by simp
  from run entry x_fields b_fields pat show ?thesis by blast
qed

text \<open>
  The example of the specification: primary \<open>{ABC, 004, Foo}\<close>, broad
  \<open>{ABC, 005, FOO BAR}\<close>. And the two records of Reunion, where the broad record
  has the primary number and the primary name in capitals: it keeps them and is not
  patched.
\<close>

theorem blend_merge_witness:
  "wf_dataset conflict_heap [(''ABC'', 0)] \<and> wf_dataset conflict_heap [(''ABC'', 1)]
   \<and> (\<exists>h' newdata patched.
         blend_un_wad (\<lambda>xs. xs) conflict_heap [(''ABC'', 0)] [(''ABC'', 1)]
         = Inr (h', newdata, patched)
         \<and> (\<exists>x. map_of newdata ''ABC'' = Some x
               \<and> h' x ''number'' = Some ''004'' \<and> h' x ''name'' = Some ''FOO'')
         \<and> h' 1 ''number'' = Some ''004'' \<and> h' 1 ''name'' = Some ''FOO''
         \<and> 1 \<in> set patched)
   \<and> wf_dataset reunion_heap [(''REU'', 0)] \<and> wf_dataset reunion_heap [(''REU'', 1)]
   \<and> (\<exists>h' newdata patched.
         blend_un_wad (\<lambda>xs. xs) reunion_heap [(''REU'', 0)] [(''REU'', 1)]
         = Inr (h', newdata, patched)
         \<and> h' 1 ''number'' = Some ''638''
         \<and> h' 1 ''name'' = Some (''R'' @ [CHR 0xC9] @ ''UNION'')
         \<and> 1 \<notin> set patched)"
proof -
  have wfu: "wf_dataset conflict_heap [(''ABC'', 0)]"
    and wfw: "wf_dataset conflict_heap [(''ABC'', 1)]"
    by (simp_all add: wf_dataset_def conflict_heap_def)
  have sep: "snd ` set [(''ABC'', 0 :: addr)] \<inter> snd ` set [(''ABC'', 1)] = {}" by simp
  have order: "\<forall>xs :: string list. set ((\<lambda>xs. xs) xs) = set xs" by simp
  have kb: "(''ABC'', 1) \<in> set [(''ABC'', 1 :: addr)]"
    and ku: "(''ABC'', 0) \<in> set [(''ABC'', 0 :: addr)]" by simp_all
  have range: "upper_in_range (the (conflict_heap 0 ''name''))"
    by (simp add: conflict_heap_def upper_in_range_def)
  have up: "upper (the (conflict_heap 0 ''name'')) = ''FOO''"
    by (simp add: conflict_heap_def upper_def upper_char_def)
  have num: "conflict_heap 0 ''number'' = Some ''004''" "conflict_heap 1 ''number'' = Some ''005''"
    by (simp_all add: conflict_heap_def)
  from blend_merge [OF wfu wfw sep order kb ku range]
  have abc: "\<exists>h' newdata patched.
         blend_un_wad (\<lambda>xs. xs) conflict_heap [(''ABC'', 0)] [(''ABC'', 1)]
         = Inr (h', newdata, patched)
         \<and> (\<exists>x. map_of newdata ''ABC'' = Some x
               \<and> h' x ''number'' = Some ''004'' \<and> h' x ''name'' = Some ''FOO'')
         \<and> h' 1 ''number'' = Some ''004'' \<and> h' 1 ''name'' = Some ''FOO''
         \<and> 1 \<in> set patched"
    unfolding up num by simp
  have wfu2: "wf_dataset reunion_heap [(''REU'', 0)]"
    and wfw2: "wf_dataset reunion_heap [(''REU'', 1)]"
    by (simp_all add: wf_dataset_def reunion_heap_def)
  have sep2: "snd ` set [(''REU'', 0 :: addr)] \<inter> snd ` set [(''REU'', 1)] = {}" by simp
  have kb2: "(''REU'', 1) \<in> set [(''REU'', 1 :: addr)]"
    and ku2: "(''REU'', 0) \<in> set [(''REU'', 0 :: addr)]" by simp_all
  have range2: "upper_in_range (the (reunion_heap 0 ''name''))"
    by (simp add: reunion_heap_def upper_in_range_def)
  have up2: "upper (the (reunion_heap 0 ''name'')) = ''R'' @ [CHR 0xC9] @ ''UNION''"
    by (simp add: reunion_heap_def upper_def upper_char_def)
  have num2: "reunion_heap 0 ''number'' = Some ''638''" "reunion_heap 1 ''number'' = Some ''638''"
    and name2: "reunion_heap 1 ''name'' = Some (''R'' @ [CHR 0xC9] @ ''UNION'')"
    by (simp_all add: reunion_heap_def)
  from blend_merge [OF wfu2 wfw2 sep2 order kb2 ku2 range2]
  have reu: "\<exists>h' newdata patched.
         blend_un_wad (\<lambda>xs. xs) reunion_heap [(''REU'', 0)] [(''REU'', 1)]
         = Inr (h', newdata, patched)
         \<and> h' 1 ''number'' = Some ''638''
         \<and> h' 1 ''name'' = Some (''R'' @ [CHR 0xC9] @ ''UNION'')
         \<and> 1 \<notin> set patched"
    unfolding up2 num2 name2 by auto
  from wfu wfw abc wfu2 wfw2 reu show ?thesis by (intro conjI)
qed

subsection \<open>Numeric-code fallback\<close>

text \<open>
  C7, as the code has it. Take well-formed datasets that share no record object and a
  broad record \<open>a\<close> whose key \<open>k\<close> is not a primary key and whose number \<open>n\<close> is the
  number of a primary record. Suppose no collision is possible: no primary record with
  number \<open>n\<close> has an ISO3 that is a broad key, and \<open>a\<close> is the only broad record
  outside the primary keys with number \<open>n\<close>. The names of the primary records with
  number \<open>n\<close> are within the range of \<open>upper\<close>. Then \<open>blend_un_wad\<close> returns; for a
  primary record \<open>u\<close> with number \<open>n\<close>, stored under \<open>k'\<close>, the result holds \<open>a\<close>
  under \<open>k'\<close>, with \<open>iso3\<close> set to \<open>k'\<close> and the name of \<open>u\<close> in upper case; \<open>k\<close>
  is no longer a key; and \<open>a\<close> is in the patched list.
\<close>

theorem blend_rekey:
  assumes wfu: "wf_dataset h und" and wfw: "wf_dataset h wad"
    and sep: "snd ` set und \<inter> snd ` set wad = {}"
    and order: "\<forall>xs. set (order xs) = set xs"
    and ka: "(k, a) \<in> set wad" and k_und: "k \<notin> fst ` set und"
    and n: "h a ''number'' = Some n"
    and some: "\<exists>u \<in> snd ` set und. h u ''number'' = Some n"
    and free: "\<forall>(k', u) \<in> set und. h u ''number'' = Some n \<longrightarrow> k' \<notin> fst ` set wad"
    and only: "\<forall>(k2, a2) \<in> set wad. k2 \<notin> fst ` set und \<and> h a2 ''number'' = Some n \<longrightarrow> k2 = k"
    and range: "\<forall>u \<in> snd ` set und. h u ''number'' = Some n \<longrightarrow> upper_in_range (the (h u ''name''))"
  shows "\<exists>h' newdata patched. blend_un_wad order h und wad = Inr (h', newdata, patched)
           \<and> (\<exists>(k', u) \<in> set und. h u ''number'' = Some n
                 \<and> map_of newdata k' = Some a
                 \<and> h' a ''iso3'' = Some k'
                 \<and> h' a ''name'' = Some (upper (the (h u ''name''))))
           \<and> k \<notin> fst ` set newdata
           \<and> a \<in> set patched"
proof -
  from wfu wfw sep order obtain isonum h1 nd1 p1 ms h' newdata patched where
    iso: "reindex h und ''number'' = Inr isonum"
    and inv: "blend_inv h und isonum wad [] (h1, nd1, p1)"
    and ms: "set ms = {k \<in> fst ` set und. k \<notin> fst ` set nd1}"
    and missing: "blend_missing und ms (h1, nd1, p1) = Inr (h', newdata, patched)"
    and run: "blend_un_wad order h und wad = Inr (h', newdata, patched)"
    by (rule blend_un_wad_wf)
  from inv have i2: "\<forall>(k, d) \<in> set wad. h1 d = new_record h d (item_outcome h und isonum k d)"
    and i3: "p1 = map snd (filter (\<lambda>(k, d). is_patched h d (item_outcome h und isonum k d)) wad)"
    and i4: "\<forall>(key, a) \<in> set nd1.
        (\<exists>k. (k, a) \<in> set wad \<and> key = target h k (item_outcome h und isonum k a))"
    and i5: "\<forall>(k, d) \<in> set wad. target h k (item_outcome h und isonum k d) \<in> fst ` set und \<longrightarrow>
            target h k (item_outcome h und isonum k d) \<in> fst ` set nd1"
    by (simp_all add: blend_inv_def)
  from k_und have mk: "map_of und k = None" by (simp add: map_of_eq_None_iff)
  \<comment> \<open>the primary record that the fallback finds\<close>
  from some reindex_None [OF iso, of n] obtain u where m: "map_of isonum n = Some u"
    by (cases "map_of isonum n") auto
  from reindex_lookup [OF iso m] have uin: "u \<in> snd ` set und" and un: "h u ''number'' = Some n"
    by simp_all
  from uin obtain k' where ku: "(k', u) \<in> set und" by force
  from wf_dataset_fields(1) [OF wfu ku] have uiso: "h u ''iso3'' = Some k'" .
  from mk n m have oc: "item_outcome h und isonum k a = Rekeyed u"
    by (simp add: item_outcome_def)
  with uiso have tg: "target h k (item_outcome h und isonum k a) = k'" by simp
  from free ku un have k'_wad: "k' \<notin> fst ` set wad" by blast
  from ka have aw: "a \<in> snd ` set wad" by force
  with sep have a_und: "a \<notin> snd ` set und" by auto
  from blend_missing_frame [OF missing, of a] a_und have a_same: "h' a = h1 a" by simp
  from wfw have dw: "distinct (map fst wad)" by (simp add: wf_dataset_def)
  from blend_un_wad_distinct [OF run dw] have dn: "distinct (map fst newdata)" .
  \<comment> \<open>the entry under the primary ISO3\<close>
  from ku have "k' \<in> fst ` set und" by force
  with i5 ka tg have "k' \<in> fst ` set nd1" by force
  then obtain x where x: "(k', x) \<in> set nd1" by auto
  with i4 obtain k2 where k2: "(k2, x) \<in> set wad"
    and t2: "target h k2 (item_outcome h und isonum k2 x) = k'" by force
  have "k2 = k"
  proof (cases "item_outcome h und isonum k2 x")
    case (Merged u2)
    with t2 have "k2 = k'" by simp
    with k2 k'_wad show ?thesis by force
  next
    case Untouched
    with t2 have "k2 = k'" by simp
    with k2 k'_wad show ?thesis by force
  next
    case (Rekeyed u2)
    then obtain dn2 where x_n: "h x ''number'' = Some dn2" and m2: "map_of isonum dn2 = Some u2"
      and k2_none: "map_of und k2 = None"
      by (auto simp: item_outcome_def split: option.splits)
    from reindex_lookup [OF iso m2] have u2in: "u2 \<in> snd ` set und"
      and u2n: "h u2 ''number'' = Some dn2" by simp_all
    from u2in obtain k'' where k'': "(k'', u2) \<in> set und" by force
    from wf_dataset_fields(1) [OF wfu k''] t2 Rekeyed have "k'' = k'" by simp
    with k'' have "(k', u2) \<in> set und" by simp
    from wf_dataset_unique [OF wfu ku this] have "u2 = u" .
    with u2n un have "dn2 = n" by simp
    moreover from k2_none have "k2 \<notin> fst ` set und" by (simp add: map_of_eq_None_iff)
    ultimately show ?thesis using only k2 x_n by blast
  qed
  with k2 have "(k, x) \<in> set wad" by simp
  from wf_dataset_unique [OF wfw ka this] have "x = a" .
  with x have "(k', a) \<in> set nd1" by simp
  moreover from this ms have "k' \<notin> set ms" by force
  ultimately have "(k', a) \<in> set newdata"
    using blend_missing_entries [OF missing] by blast
  with dn have entry: "map_of newdata k' = Some a" by simp
  from i2 ka oc have "h1 a = new_record h a (Rekeyed u)" by force
  with uiso a_same have fields:
    "h' a ''iso3'' = Some k' \<and> h' a ''name'' = Some (upper (the (h u ''name'')))"
    by simp
  \<comment> \<open>the old key\<close>
  have "k \<notin> fst ` set nd1"
  proof
    assume "k \<in> fst ` set nd1"
    then obtain y where y: "(k, y) \<in> set nd1" by auto
    with i4 obtain k3 where k3: "(k3, y) \<in> set wad"
      and t3: "target h k3 (item_outcome h und isonum k3 y) = k" by force
    show False
    proof (cases "item_outcome h und isonum k3 y")
      case (Merged u3)
      with t3 have "k3 = k" by simp
      moreover from Merged have "map_of und k3 \<noteq> None"
        by (auto simp: item_outcome_def split: option.splits)
      ultimately show False using mk by simp
    next
      case Untouched
      with t3 have "k3 = k" by simp
      with k3 have "(k, y) \<in> set wad" by simp
      from wf_dataset_unique [OF wfw ka this] have "y = a" .
      with Untouched \<open>k3 = k\<close> oc show False by simp
    next
      case (Rekeyed u3)
      then obtain dn3 where m3: "map_of isonum dn3 = Some u3"
        by (auto simp: item_outcome_def split: option.splits)
      from reindex_lookup(1) [OF iso m3] obtain k4 where k4: "(k4, u3) \<in> set und" by force
      from wf_dataset_fields(1) [OF wfu k4] t3 Rekeyed have "k4 = k" by simp
      with k4 k_und show False by force
    qed
  qed
  moreover have "k \<notin> set ms" using ms k_und by simp
  ultimately have gone: "k \<notin> fst ` set newdata"
    using blend_missing_result(1) [OF missing] by simp
  \<comment> \<open>the patched list\<close>
  from i3 ka oc have "a \<in> set p1" by force
  with blend_missing_entries [OF missing] have pat: "a \<in> set patched" by blast
  from ku un entry fields have
    "\<exists>(k', u) \<in> set und. h u ''number'' = Some n \<and> map_of newdata k' = Some a
        \<and> h' a ''iso3'' = Some k' \<and> h' a ''name'' = Some (upper (the (h u ''name'')))"
    by blast
  with run gone pat show ?thesis by blast
qed

text \<open>
  The broad record ROMANIA under ROM, the primary record Romania under ROU, both with
  number 642.
\<close>

theorem blend_rekey_witness:
  "wf_dataset blend_heap [(''ROU'', 4)] \<and> wf_dataset blend_heap [(''ROM'', 5)]
   \<and> (\<exists>h' newdata patched.
         blend_un_wad (\<lambda>xs. xs) blend_heap [(''ROU'', 4)] [(''ROM'', 5)]
         = Inr (h', newdata, patched)
         \<and> map_of newdata ''ROU'' = Some 5
         \<and> h' 5 ''iso3'' = Some ''ROU'' \<and> h' 5 ''name'' = Some ''ROMANIA''
         \<and> ''ROM'' \<notin> fst ` set newdata \<and> 5 \<in> set patched)"
proof -
  have wfu: "wf_dataset blend_heap [(''ROU'', 4)]"
    and wfw: "wf_dataset blend_heap [(''ROM'', 5)]"
    by (simp_all add: wf_dataset_def blend_heap_def)
  have sep: "snd ` set [(''ROU'', 4 :: addr)] \<inter> snd ` set [(''ROM'', 5)] = {}" by simp
  have order: "\<forall>xs :: string list. set ((\<lambda>xs. xs) xs) = set xs" by simp
  have ka: "(''ROM'', 5) \<in> set [(''ROM'', 5 :: addr)]" by simp
  have k_und: "''ROM'' \<notin> fst ` set [(''ROU'', 4 :: addr)]" by simp
  have n: "blend_heap 5 ''number'' = Some ''642''" by (simp add: blend_heap_def)
  have some: "\<exists>u \<in> snd ` set [(''ROU'', 4 :: addr)]. blend_heap u ''number'' = Some ''642''"
    by (simp add: blend_heap_def)
  have free: "\<forall>(k', u) \<in> set [(''ROU'', 4 :: addr)].
      blend_heap u ''number'' = Some ''642'' \<longrightarrow> k' \<notin> fst ` set [(''ROM'', 5 :: addr)]"
    by simp
  have only: "\<forall>(k2, a2) \<in> set [(''ROM'', 5 :: addr)].
      k2 \<notin> fst ` set [(''ROU'', 4 :: addr)] \<and> blend_heap a2 ''number'' = Some ''642'' \<longrightarrow> k2 = ''ROM''"
    by simp
  have range: "\<forall>u \<in> snd ` set [(''ROU'', 4 :: addr)].
      blend_heap u ''number'' = Some ''642'' \<longrightarrow> upper_in_range (the (blend_heap u ''name''))"
    by (simp add: blend_heap_def upper_in_range_def)
  have up: "upper (the (blend_heap 4 ''name'')) = ''ROMANIA''"
    by (simp add: blend_heap_def upper_def upper_char_def)
  from blend_rekey [OF wfu wfw sep order ka k_und n some free only range] up
  have "\<exists>h' newdata patched.
         blend_un_wad (\<lambda>xs. xs) blend_heap [(''ROU'', 4)] [(''ROM'', 5)]
         = Inr (h', newdata, patched)
         \<and> map_of newdata ''ROU'' = Some 5
         \<and> h' 5 ''iso3'' = Some ''ROU'' \<and> h' 5 ''name'' = Some ''ROMANIA''
         \<and> ''ROM'' \<notin> fst ` set newdata \<and> 5 \<in> set patched"
    by auto
  with wfu wfw show ?thesis by blast
qed

text \<open>
  C7 as stated fails when keys collide. The broad source has ROM and ROU, both with
  number 642, and the primary source has ROU: the record of ROM is re-keyed to ROU and
  patched, then the pass for the broad ROU stores its own record under ROU. The
  re-keyed record (address 5) is in no entry of the result.
\<close>

theorem blend_rekey_counterexample:
  "case blend_un_wad (\<lambda>xs. xs) blend_heap [(''ROU'', 4)] [(''ROM'', 5), (''ROU'', 7)] of
     Inl e \<Rightarrow> False
   | Inr (h', newdata, patched) \<Rightarrow> newdata = [(''ROU'', 7)] \<and> patched = [5]"
  by (simp add: blend_eval blend_heap_def)

subsection \<open>Agreement\<close>

lemma blend_step_agree:
  assumes iso: "reindex h und ''number'' = Inr isonum"
    and agree: "\<forall>u. map_of und k = Some u \<longrightarrow>
        (\<exists>n nm. h u ''number'' = Some n \<and> h b ''number'' = Some n
           \<and> h u ''name'' = Some nm \<and> h b ''name'' = Some (upper nm))"
    and other: "map_of und k = None \<longrightarrow> (\<forall>u \<in> snd ` set und. h u ''number'' \<noteq> h b ''number'')"
  shows "blend_step und isonum (h, nd, []) (k, b) = (h, AList.update k b nd, [])"
proof (cases "map_of und k")
  case (Some u)
  with agree obtain n nm where un: "h u ''number'' = Some n" and bn: "h b ''number'' = Some n"
    and unm: "h u ''name'' = Some nm" and bnm: "h b ''name'' = Some (upper nm)"
    by blast
  have "(h b)(''number'' \<mapsto> n, ''name'' \<mapsto> upper nm) = h b"
    using bn bnm by (auto simp: fun_eq_iff)
  then have "h(b := (h b)(''number'' \<mapsto> n, ''name'' \<mapsto> upper nm)) = h"
    by (metis fun_upd_triv)
  then have "blend_try und h k b = (False, Some h)"
    using Some un bn unm bnm by (simp add: blend_try_def Let_def)
  then show ?thesis by simp
next
  case None
  then have tr: "blend_try und h k b = (False, None)" by (simp add: blend_try_def)
  have "blend_fallback isonum h nd k b = (False, k, h, nd)"
  proof (cases "h b ''number''")
    case bn: None
    then show ?thesis by (simp add: blend_fallback_def)
  next
    case (Some dn)
    have "map_of isonum dn = None"
    proof (cases "map_of isonum dn")
      case None
      then show ?thesis .
    next
      case (Some u)
      from reindex_lookup [OF iso Some] other \<open>map_of und k = None\<close> \<open>h b ''number'' = Some dn\<close>
      show ?thesis by force
    qed
    with Some show ?thesis by (simp add: blend_fallback_def)
  qed
  with tr show ?thesis by simp
qed

lemma blend_loop_agree:
  assumes "\<And>k b nd. (k, b) \<in> set items \<Longrightarrow>
      blend_step und isonum (h, nd, []) (k, b) = (h, AList.update k b nd, [])"
  shows "\<exists>nd'. foldl (blend_step und isonum) (h, nd, []) items = (h, nd', [])
           \<and> fst ` set nd' = fst ` set nd \<union> fst ` set items"
  using assms
proof (induction items arbitrary: nd)
  case Nil
  then show ?case by simp
next
  case (Cons x items)
  obtain k b where x: "x = (k, b)" by (cases x)
  from Cons.prems x have step: "blend_step und isonum (h, nd, []) x = (h, AList.update k b nd, [])"
    by simp
  from Cons.prems have "\<And>k b nd. (k, b) \<in> set items \<Longrightarrow>
      blend_step und isonum (h, nd, []) (k, b) = (h, AList.update k b nd, [])"
    by simp
  from Cons.IH [OF this, of "AList.update k b nd"] obtain nd' where
    "foldl (blend_step und isonum) (h, AList.update k b nd, []) items = (h, nd', [])"
    and "fst ` set nd' = fst ` set (AList.update k b nd) \<union> fst ` set items"
    by blast
  with step x show ?case by (auto simp: dom_update)
qed

text \<open>
  C4, as the code has it. Suppose every primary key is a broad key; for every key in
  both, the broad record has the number of the primary record and, as its name, the
  primary name in upper case; and no broad record outside the primary keys has the
  number of a primary record. (Every primary record has a number, or \<open>reindex\<close>
  raises; the primary names are within the range of \<open>upper\<close>.) Then \<open>blend_un_wad\<close> returns, it leaves every record as it was, and the
  patched list is empty.
\<close>

theorem blend_agreement:
  assumes order: "\<forall>xs. set (order xs) = set xs"
    and keys: "fst ` set und \<subseteq> fst ` set wad"
    and numbers: "\<forall>u \<in> snd ` set und. h u ''number'' \<noteq> None"
    and agree: "\<forall>(k, b) \<in> set wad. \<forall>u. map_of und k = Some u \<longrightarrow>
        (\<exists>n nm. h u ''number'' = Some n \<and> h b ''number'' = Some n
           \<and> h u ''name'' = Some nm \<and> h b ''name'' = Some (upper nm))"
    and other: "\<forall>(k, b) \<in> set wad. map_of und k = None \<longrightarrow>
        (\<forall>u \<in> snd ` set und. h u ''number'' \<noteq> h b ''number'')"
    and range: "\<forall>u \<in> snd ` set und. upper_in_range (the (h u ''name''))"
  shows "\<exists>newdata. blend_un_wad order h und wad = Inr (h, newdata, [])"
proof -
  from numbers have "\<forall>a \<in> set (map snd und). h a ''number'' \<noteq> None" by simp
  then obtain isonum where iso: "reindex h und ''number'' = Inr isonum"
    unfolding reindex_def using reindex_loop_Inr by blast
  have step: "blend_step und isonum (h, nd, []) (k, b) = (h, AList.update k b nd, [])"
    if "(k, b) \<in> set wad" for k b nd
  proof (rule blend_step_agree [OF iso])
    from agree that show "\<forall>u. map_of und k = Some u \<longrightarrow>
        (\<exists>n nm. h u ''number'' = Some n \<and> h b ''number'' = Some n
           \<and> h u ''name'' = Some nm \<and> h b ''name'' = Some (upper nm))"
      by blast
    from other that show "map_of und k = None \<longrightarrow>
        (\<forall>u \<in> snd ` set und. h u ''number'' \<noteq> h b ''number'')"
      by blast
  qed
  from blend_loop_agree [of wad und isonum h wad, OF step] obtain nd' where
    loop: "foldl (blend_step und isonum) (h, wad, []) wad = (h, nd', [])"
    and dom: "fst ` set nd' = fst ` set wad \<union> fst ` set wad"
    by blast
  from keys dom have "filter (\<lambda>k. k \<notin> fst ` set nd') (map fst und) = []"
    by (auto simp: filter_empty_conv)
  moreover from order have "set (order []) = set []" by blast
  ultimately have "order (filter (\<lambda>k. k \<notin> fst ` set nd') (map fst und)) = []" by simp
  with iso loop have "blend_un_wad order h und wad = Inr (h, nd', [])"
    by (simp add: blend_un_wad_def)
  then show ?thesis ..
qed

text \<open>
  France agrees with FRANCE once in upper case; ANTARCTICA has no primary counterpart.
  And the name of Reunion agrees with the broad name, whose second letter is the
  capital E with acute accent.
\<close>

theorem blend_agreement_witness:
  "(\<exists>newdata. blend_un_wad (\<lambda>xs. xs) blend_heap [(''FRA'', 0)] [(''FRA'', 1), (''ATA'', 2)]
      = Inr (blend_heap, newdata, []))
   \<and> (\<exists>newdata. blend_un_wad (\<lambda>xs. xs) reunion_heap [(''REU'', 0)] [(''REU'', 1)]
      = Inr (reunion_heap, newdata, []))"
proof -
  have order: "\<forall>xs :: string list. set ((\<lambda>xs. xs) xs) = set xs" by simp
  have keys: "fst ` set [(''FRA'', 0 :: addr)] \<subseteq> fst ` set [(''FRA'', 1 :: addr), (''ATA'', 2)]"
    by simp
  have numbers: "\<forall>u \<in> snd ` set [(''FRA'', 0 :: addr)]. blend_heap u ''number'' \<noteq> None"
    by (simp add: blend_heap_def)
  have agree: "\<forall>(k, b) \<in> set [(''FRA'', 1 :: addr), (''ATA'', 2)].
      \<forall>u. map_of [(''FRA'', 0 :: addr)] k = Some u \<longrightarrow>
        (\<exists>n nm. blend_heap u ''number'' = Some n \<and> blend_heap b ''number'' = Some n
           \<and> blend_heap u ''name'' = Some nm \<and> blend_heap b ''name'' = Some (upper nm))"
    by (simp add: blend_heap_def upper_def upper_char_def)
  have other: "\<forall>(k, b) \<in> set [(''FRA'', 1 :: addr), (''ATA'', 2)].
      map_of [(''FRA'', 0 :: addr)] k = None \<longrightarrow>
        (\<forall>u \<in> snd ` set [(''FRA'', 0 :: addr)]. blend_heap u ''number'' \<noteq> blend_heap b ''number'')"
    by (simp add: blend_heap_def)
  have range: "\<forall>u \<in> snd ` set [(''FRA'', 0 :: addr)]. upper_in_range (the (blend_heap u ''name''))"
    by (simp add: blend_heap_def upper_in_range_def)
  have keys2: "fst ` set [(''REU'', 0 :: addr)] \<subseteq> fst ` set [(''REU'', 1 :: addr)]"
    by simp
  have numbers2: "\<forall>u \<in> snd ` set [(''REU'', 0 :: addr)]. reunion_heap u ''number'' \<noteq> None"
    by (simp add: reunion_heap_def)
  have agree2: "\<forall>(k, b) \<in> set [(''REU'', 1 :: addr)].
      \<forall>u. map_of [(''REU'', 0 :: addr)] k = Some u \<longrightarrow>
        (\<exists>n nm. reunion_heap u ''number'' = Some n \<and> reunion_heap b ''number'' = Some n
           \<and> reunion_heap u ''name'' = Some nm \<and> reunion_heap b ''name'' = Some (upper nm))"
    by (simp add: reunion_heap_def upper_def upper_char_def)
  have other2: "\<forall>(k, b) \<in> set [(''REU'', 1 :: addr)].
      map_of [(''REU'', 0 :: addr)] k = None \<longrightarrow>
        (\<forall>u \<in> snd ` set [(''REU'', 0 :: addr)]. reunion_heap u ''number'' \<noteq> reunion_heap b ''number'')"
    by simp
  have range2: "\<forall>u \<in> snd ` set [(''REU'', 0 :: addr)]. upper_in_range (the (reunion_heap u ''name''))"
    by (simp add: reunion_heap_def upper_in_range_def)
  from blend_agreement [OF order keys numbers agree other range]
    blend_agreement [OF order keys2 numbers2 agree2 other2 range2]
  show ?thesis by (rule conjI)
qed

text \<open>
  C4 as stated fails in three ways, each with the two sources in agreement on every
  shared key. A primary record without a broad counterpart is inserted and patched. A
  broad record with the same number and the same name \<open>France\<close> as the primary record
  is patched, because its name is compared with the name in upper case. A broad record
  re-keyed by its number is patched, though it shares no key with the primary source.
\<close>

theorem blend_agreement_counterexample:
  "(case blend_un_wad (\<lambda>xs. xs) blend_heap [(''SSD'', 3)] [] of
      Inl e \<Rightarrow> False | Inr (h', newdata, patched) \<Rightarrow> patched = [3])
   \<and> blend_heap 6 ''number'' = blend_heap 0 ''number''
   \<and> blend_heap 6 ''name'' = blend_heap 0 ''name''
   \<and> (case blend_un_wad (\<lambda>xs. xs) blend_heap [(''FRA'', 0)] [(''FRA'', 6)] of
      Inl e \<Rightarrow> False | Inr (h', newdata, patched) \<Rightarrow> patched = [6])
   \<and> (case blend_un_wad (\<lambda>xs. xs) blend_heap [(''ROU'', 4)] [(''ROM'', 5)] of
      Inl e \<Rightarrow> False | Inr (h', newdata, patched) \<Rightarrow> patched = [5])"
  by (simp add: blend_eval blend_heap_def)

section \<open>Properties of the filter\<close>

lemma set_delete_subset: "set (AList.delete k al) \<subseteq> set al"
  by (auto simp: AList.delete_eq)

lemma dom_delete: "fst ` set (AList.delete k al) = fst ` set al - {k}"
  by (metis delete_keys set_map set_removeAll)

lemma strip_no_idc_subset:
  "strip_no_idc h ks blend = Inr blend' \<Longrightarrow> set blend' \<subseteq> set blend"
proof (induction ks arbitrary: blend)
  case Nil
  then show ?case by simp
next
  case (Cons k ks)
  from Cons.prems obtain a0 where a0: "map_of blend k = Some a0"
    by (cases "map_of blend k") simp_all
  show ?case
  proof (cases "(case h a0 ''idc'' of None \<Rightarrow> '''' | Some v \<Rightarrow> v) = ''''")
    case True
    with Cons.prems a0 have "strip_no_idc h ks (AList.delete k blend) = Inr blend'" by simp
    from Cons.IH [OF this] set_delete_subset [of k blend] show ?thesis by blast
  next
    case False
    with Cons.prems a0 have "strip_no_idc h ks blend = Inr blend'" by simp
    from Cons.IH [OF this] show ?thesis .
  qed
qed

lemma strip_no_idc_Inr:
  "distinct ks \<Longrightarrow> set ks \<subseteq> fst ` set blend \<Longrightarrow> \<exists>blend'. strip_no_idc h ks blend = Inr blend'"
proof (induction ks arbitrary: blend)
  case Nil
  then show ?case by simp
next
  case (Cons k ks)
  then obtain a where a: "map_of blend k = Some a"
    by (cases "map_of blend k") (auto simp: map_of_eq_None_iff)
  from Cons.prems have d: "distinct ks" and s: "set ks \<subseteq> fst ` set blend" and n: "k \<notin> set ks"
    by simp_all
  from s n have "set ks \<subseteq> fst ` set (AList.delete k blend)"
    unfolding dom_delete by blast
  with Cons.IH [OF d, of "AList.delete k blend"] Cons.IH [OF d s] a
  show ?case by (cases "(case h a ''idc'' of None \<Rightarrow> '''' | Some v \<Rightarrow> v) = ''''") simp_all
qed

lemma strip_no_idc_kept:
  "strip_no_idc h ks blend = Inr blend' \<Longrightarrow> distinct (map fst blend) \<Longrightarrow>
     (k, a) \<in> set blend' \<Longrightarrow> k \<in> set ks \<Longrightarrow> \<exists>v. h a ''idc'' = Some v \<and> v \<noteq> ''''"
proof (induction ks arbitrary: blend)
  case Nil
  then show ?case by simp
next
  case (Cons k0 ks)
  from Cons.prems(1) obtain a0 where a0: "map_of blend k0 = Some a0"
    by (cases "map_of blend k0") simp_all
  show ?case
  proof (cases "(case h a0 ''idc'' of None \<Rightarrow> '''' | Some v \<Rightarrow> v) = ''''")
    case True
    with Cons.prems(1) a0 have rec: "strip_no_idc h ks (AList.delete k0 blend) = Inr blend'"
      by simp
    from strip_no_idc_subset [OF rec] Cons.prems(3) have "(k, a) \<in> set (AList.delete k0 blend)"
      by blast
    then have "k \<noteq> k0" by (auto simp: AList.delete_eq)
    with Cons.prems(4) have ks: "k \<in> set ks" by simp
    from Cons.prems(2) have "distinct (map fst (AList.delete k0 blend))"
      by (simp add: distinct_delete)
    from Cons.IH [OF rec this Cons.prems(3) ks] show ?thesis .
  next
    case False
    with Cons.prems(1) a0 have rec: "strip_no_idc h ks blend = Inr blend'"
      by simp
    show ?thesis
    proof (cases "k \<in> set ks")
      case True
      from Cons.IH [OF rec Cons.prems(2) Cons.prems(3) True] show ?thesis .
    next
      case notin: False
      with Cons.prems(4) have "k = k0" by simp
      moreover from strip_no_idc_subset [OF rec] Cons.prems(3) have "(k, a) \<in> set blend" by blast
      ultimately have "a = a0" using a0 Cons.prems(2) by simp
      with False show ?thesis by (cases "h a0 ''idc''") simp_all
    qed
  qed
qed

text \<open>
  C9. With the ignore flag set, whenever \<open>make_dataset\<close> reaches the writers, every
  entry left in the mapping has an \<open>idc\<close> field that is not the empty string. The keys
  of \<open>wad\<close> are distinct, as the keys of a dict are. By \<open>strip_no_idc_Inr\<close> the
  filtering loop itself never raises on a dict.
\<close>

theorem make_dataset_ignore:
  assumes "distinct (map fst wad)"
    and "make_dataset order h und wad country_codes True = Inr (h', blend', patched)"
  shows "\<forall>(k, a) \<in> set blend'. \<exists>v. h' a ''idc'' = Some v \<and> v \<noteq> ''''"
proof -
  from assms(2) obtain h1 blend p1 where blend0: "blend_un_wad order h und wad = Inr (h1, blend, p1)"
    by (cases "blend_un_wad order h und wad") (auto simp: make_dataset_def)
  obtain h2 e where mn: "map_numbers h1 blend country_codes = (h2, e)"
    by (cases "map_numbers h1 blend country_codes") auto
  from assms(2) blend0 mn have e: "e = None"
    by (cases e) (simp_all add: make_dataset_def)
  from assms(2) blend0 mn e have strip: "strip_no_idc h' (map fst blend) blend = Inr blend'"
    by (cases "strip_no_idc h2 (map fst blend) blend") (simp_all add: make_dataset_def)
  from blend_un_wad_distinct [OF blend0 assms(1)] have dist: "distinct (map fst blend)" .
  show ?thesis
  proof (clarify)
    fix k a assume ka: "(k, a) \<in> set blend'"
    with strip_no_idc_subset [OF strip] have "(k, a) \<in> set blend" by blast
    then have "k \<in> set (map fst blend)" by force
    from strip_no_idc_kept [OF strip dist ka this]
    show "\<exists>v. h' a ''idc'' = Some v \<and> v \<noteq> ''''" .
  qed
qed

text \<open>
  A run of the pipeline with the flag set: FRANCE receives the code 33 and stays,
  ANTARCTICA has no code and is removed.
\<close>

theorem make_dataset_ignore_witness:
  "distinct (map fst [(''FRA'', 1 :: addr), (''ATA'', 2)])
   \<and> (\<exists>h' patched.
         make_dataset (\<lambda>xs. xs) blend_heap [(''FRA'', 0)] [(''FRA'', 1), (''ATA'', 2)]
           [(''FRANCE'', [''+33''])] True = Inr (h', [(''FRA'', 1)], patched)
         \<and> h' 1 ''idc'' = Some ''33'')"
proof -
  have d: "distinct (map fst [(''FRA'', 1 :: addr), (''ATA'', 2)])" by simp
  have run: "case make_dataset (\<lambda>xs. xs) blend_heap [(''FRA'', 0)] [(''FRA'', 1), (''ATA'', 2)]
           [(''FRANCE'', [''+33''])] True of
         Inl e \<Rightarrow> False
       | Inr (h', blend', patched) \<Rightarrow> blend' = [(''FRA'', 1)]"
    by (simp add: make_dataset_def blend_un_wad_def reindex_def blend_heap_def blend_try_def
          blend_fallback_def upper_def upper_char_def map_numbers_def map_numbers_step_def
          COUNTRY_MAPPINGS_def split_numbers_def tokens_def strip_def is_space_def)
  then obtain h' patched where r: "make_dataset (\<lambda>xs. xs) blend_heap [(''FRA'', 0)]
      [(''FRA'', 1), (''ATA'', 2)] [(''FRANCE'', [''+33''])] True = Inr (h', [(''FRA'', 1)], patched)"
    by (auto split: sum.splits)
  from make_dataset_ignore [OF d r] obtain v where "h' 1 ''idc'' = Some v" by auto
  moreover have "case make_dataset (\<lambda>xs. xs) blend_heap [(''FRA'', 0)] [(''FRA'', 1), (''ATA'', 2)]
           [(''FRANCE'', [''+33''])] True of
         Inl e \<Rightarrow> False
       | Inr (h', blend', patched) \<Rightarrow> h' 1 ''idc'' = Some ''33''"
    by (simp add: make_dataset_def blend_un_wad_def reindex_def blend_heap_def blend_try_def
          blend_fallback_def upper_def upper_char_def map_numbers_def map_numbers_step_def
          COUNTRY_MAPPINGS_def split_numbers_def tokens_def strip_def is_space_def)
  ultimately have "h' 1 ''idc'' = Some ''33''" using r by simp
  with d r show ?thesis by blast
qed

end
